theory Spec2Isabelle
  imports Main "HOL-Library.Char_ord" "HOL-Library.List_Lexorder" "HOL-Library.Sublist"
begin

section \<open>Data model\<close>

text \<open>
  A channel is the dict that \<^verbatim>\<open>ChannelHandler.get_channel_list\<close> yields. The generator
  reads the keys \<^verbatim>\<open>'name'\<close> and \<^verbatim>\<open>'cat'\<close> only (the two sort keys); every other key is
  carried along untouched in \<open>other\<close>. Python compares \<^verbatim>\<open>str\<close> values lexicographically by
  code point, which is the order of \<open>string\<close> given by \<open>Char_ord\<close> and \<open>List_Lexorder\<close>.
\<close>

record channel =
  name :: string
  cat :: string
  other :: string

text \<open>
  One element of \<^verbatim>\<open>Config.DATA_SETS\<close>: the four keys that \<^verbatim>\<open>main\<close> reads, and the rules
  that only the channel handler reads.
\<close>

record data_set =
  OUT_FILE_NAME :: string
  OUT_FILE_ENCODING :: string
  OUT_FILE_FIRST_LINE :: string
  CLEAN_FILTER :: bool
  RULES :: string

record config =
  DATA_SETS :: "data_set list"
  DATA_SET_DELAY :: int
  UPDATE_DELAY :: int
  MAIL_ON_CRASH :: bool
  PAUSE_ON_CRASH :: bool

text \<open>Exceptions (all of them subclasses of \<^verbatim>\<open>Exception\<close>) as values.\<close>

datatype exn =
    FileNotFoundError
  | FileExistsError
  | NotADirectoryError
  | IsADirectoryError
  | LookupError
  | ValueError
  | EOFError
  | Raised string

text \<open>
  The arguments of a \<^verbatim>\<open>print\<close> call: string literals and values, integers, a formatted
  \<^verbatim>\<open>datetime.now()\<close> (the clock is not modelled) and a \<^verbatim>\<open>timedelta(seconds=n)\<close>.
\<close>

datatype pyval = S string | I int | Now | Delta int

text \<open>
  Everything the program does to the outside world apart from the file system, in the
  order it happens: prints, sleeps, and the calls into \<^verbatim>\<open>ChannelHandler\<close>, \<^verbatim>\<open>Utils\<close>,
  \<^verbatim>\<open>input\<close> and \<^verbatim>\<open>exit\<close>. A call is recorded when it is made, before its outcome is known.
\<close>

datatype event =
    Print "pyval list"
  | Print_stderr "pyval list"
  | Print_exc exn
  | Sleep int
  | Call_wait_for_internet
  | Call_get_channel_list data_set
  | Call_replace_categories "channel list" data_set
  | Call_clean_filter "channel list" data_set
  | Call_is_channel_allowed channel data_set
  | Call_write_entry channel data_set
  | Call_send_email string string
  | Call_input string
  | Call_exit int

text \<open>
  The file system maps a resolved path (its list of components) to a directory or to a
  regular file with its content. The empty component list is the directory every path
  is resolved from; it always exists.
\<close>

datatype node = Dir | File string

type_synonym fsys = "string list \<Rightarrow> node option"

record world =
  fs :: fsys
  handles :: "string list list"
  trace :: "event list"

text \<open>
  The modules this file imports but that are not part of it, as parameters. Each call
  either returns or raises. \<open>clean_filter\<close> works in place in the source: here it returns
  the content of the list after the call. \<open>write_entry\<close> returns the text it appends to
  the file it is handed. \<open>codecs_lookup\<close> tells whether an encoding name is known,
  \<open>format_exc\<close> is the text of a traceback.
\<close>

record collab =
  get_channel_list :: "data_set \<Rightarrow> exn + channel list"
  replace_categories :: "channel list \<Rightarrow> data_set \<Rightarrow> exn + channel list"
  clean_filter :: "channel list \<Rightarrow> data_set \<Rightarrow> exn + channel list"
  is_channel_allowed :: "channel \<Rightarrow> data_set \<Rightarrow> exn + bool"
  write_entry :: "channel \<Rightarrow> data_set \<Rightarrow> exn + string"
  wait_for_internet :: "exn option"
  send_email :: "string \<Rightarrow> string \<Rightarrow> exn option"
  gethostname :: "exn + string"
  gethostbyname :: "string \<Rightarrow> exn + string"
  codecs_lookup :: "string \<Rightarrow> bool"
  format_exc :: "exn \<Rightarrow> string"
  input_line :: "exn + string"

section \<open>Paths and the file system\<close>

text \<open>\<^verbatim>\<open>os.path.dirname\<close> (posixpath): everything up to the last slash, trailing slashes
  stripped unless the head consists of slashes only.\<close>

definition dirname :: "string \<Rightarrow> string" where
  "dirname p =
     (let head = rev (dropWhile (\<lambda>c. c \<noteq> CHR ''/'') (rev p))
      in if head \<noteq> [] \<and> head \<noteq> replicate (length head) (CHR ''/'')
         then rev (dropWhile (\<lambda>c. c = CHR ''/'') (rev head))
         else head)"

fun split_sep :: "string \<Rightarrow> string list" where
  "split_sep [] = [[]]"
| "split_sep (c # cs) =
     (if c = CHR ''/'' then [] # split_sep cs
      else (case split_sep cs of [] \<Rightarrow> [[c]] | x # xs \<Rightarrow> (c # x) # xs))"

text \<open>Path resolution: empty components and \<^verbatim>\<open>.\<close> are skipped. A component \<^verbatim>\<open>..\<close> is
  not interpreted.\<close>

definition resolve :: "string \<Rightarrow> string list" where
  "resolve p = filter (\<lambda>c. c \<noteq> [] \<and> c \<noteq> ''.'') (split_sep p)"

definition node_at :: "fsys \<Rightarrow> string list \<Rightarrow> node option" where
  "node_at f p = (if p = [] then Some Dir else f p)"

text \<open>
  \<^verbatim>\<open>os.makedirs(name, exist_ok=True)\<close>: walking down from the start directory, a missing
  component is created, an existing directory is accepted, and a regular file in the way
  raises (\<^verbatim>\<open>FileExistsError\<close> from \<^verbatim>\<open>mkdir\<close> of the last component, \<^verbatim>\<open>NotADirectoryError\<close>
  from the \<^verbatim>\<open>mkdir\<close> below it otherwise). The directories made before a failure stay.
  The empty name raises \<^verbatim>\<open>FileNotFoundError\<close>.
\<close>

fun ensure_dirs :: "fsys \<Rightarrow> string list \<Rightarrow> string list \<Rightarrow> exn option \<times> fsys" where
  "ensure_dirs f pre [] = (None, f)"
| "ensure_dirs f pre (c # cs) =
     (case node_at f (pre @ [c]) of
        None \<Rightarrow> ensure_dirs (f(pre @ [c] \<mapsto> Dir)) (pre @ [c]) cs
      | Some Dir \<Rightarrow> ensure_dirs f (pre @ [c]) cs
      | Some (File x) \<Rightarrow> (Some (if cs = [] then FileExistsError else NotADirectoryError), f))"

definition makedirs :: "string \<Rightarrow> fsys \<Rightarrow> exn option \<times> fsys" where
  "makedirs nm f = (if nm = [] then (Some FileNotFoundError, f) else ensure_dirs f [] (resolve nm))"

definition emit :: "event \<Rightarrow> world \<Rightarrow> world" where
  "emit e w = w\<lparr>trace := trace w @ [e]\<rparr>"

text \<open>
  \<^verbatim>\<open>codecs.open(name, 'w', encoding)\<close>: the file is opened in binary write mode, which
  creates or truncates it, and only then is the encoding looked up; an unknown encoding
  closes the file again and raises \<^verbatim>\<open>LookupError\<close>. The result is the handle, named by
  the resolved path.
\<close>

definition open_w :: "collab \<Rightarrow> string \<Rightarrow> string \<Rightarrow> world \<Rightarrow> (exn + string list) \<times> world" where
  "open_w c nm enc w =
     (let p = resolve nm in
      if nm = [] then (Inl FileNotFoundError, w)
      else if last nm = CHR ''/'' \<or> node_at (fs w) p = Some Dir then (Inl IsADirectoryError, w)
      else (case node_at (fs w) (butlast p) of
              None \<Rightarrow> (Inl FileNotFoundError, w)
            | Some (File x) \<Rightarrow> (Inl NotADirectoryError, w)
            | Some Dir \<Rightarrow>
                (let w1 = w\<lparr>fs := (fs w)(p \<mapsto> File [])\<rparr>
                 in if codecs_lookup c enc then (Inr p, w1\<lparr>handles := p # handles w1\<rparr>)
                    else (Inl LookupError, w1))))"

definition content :: "fsys \<Rightarrow> string list \<Rightarrow> string" where
  "content f p = (case f p of Some (File x) \<Rightarrow> x | _ \<Rightarrow> [])"

text \<open>\<^verbatim>\<open>out_file.write(text)\<close>: the text is appended. The source buffers it until the file is
  closed; every path through the \<^verbatim>\<open>with\<close> block closes the file, so the state after the
  block is the same.\<close>

definition file_write :: "string list \<Rightarrow> string \<Rightarrow> world \<Rightarrow> world" where
  "file_write h txt w = w\<lparr>fs := (fs w)(h \<mapsto> File (content (fs w) h @ txt))\<rparr>"

definition file_close :: "string list \<Rightarrow> world \<Rightarrow> world" where
  "file_close h w = w\<lparr>handles := remove1 h (handles w)\<rparr>"

text \<open>\<^verbatim>\<open>time.sleep(secs)\<close> raises \<^verbatim>\<open>ValueError\<close> on a negative length.\<close>

definition sleep :: "int \<Rightarrow> world \<Rightarrow> exn option \<times> world" where
  "sleep n w = (if n < 0 then (Some ValueError, w) else (None, emit (Sleep n) w))"

section \<open>\<^verbatim>\<open>M3UGenerator.main\<close>\<close>

text \<open>Lines 56 to 61: the loop over the channel list, with the two counters.\<close>

fun write_loop ::
  "collab \<Rightarrow> data_set \<Rightarrow> string list \<Rightarrow> channel list \<Rightarrow> int \<times> int \<Rightarrow> world
     \<Rightarrow> (exn + int \<times> int) \<times> world" where
  "write_loop c d h [] (t, a) w = (Inr (t, a), w)"
| "write_loop c d h (ch # rest) (t, a) w =
     (let w1 = emit (Call_is_channel_allowed ch d) w in
      case is_channel_allowed c ch d of
        Inl e \<Rightarrow> (Inl e, w1)
      | Inr ok \<Rightarrow>
          if ok then
            (let w2 = emit (Call_write_entry ch d) w1 in
             case write_entry c ch d of
               Inl e \<Rightarrow> (Inl e, w2)
             | Inr txt \<Rightarrow> write_loop c d h rest (t + 1, a + 1) (file_write h txt w2))
          else write_loop c d h rest (t + 1, a) w1)"

text \<open>
  Lines 43 to 61: the body of the \<^verbatim>\<open>with\<close> block. \<^verbatim>\<open>list.sort\<close> is a stable sort; the result
  of a stable sort is determined by the keys, so \<open>sort_key\<close> (a stable insertion sort)
  computes the same list.
\<close>

definition with_body ::
  "collab \<Rightarrow> data_set \<Rightarrow> string list \<Rightarrow> world \<Rightarrow> (exn + int \<times> int) \<times> world" where
  "with_body c d h w =
     (let w1 = file_write h (OUT_FILE_FIRST_LINE d) w;
          w2 = emit (Call_get_channel_list d) w1
      in case get_channel_list c d of
           Inl e \<Rightarrow> (Inl e, w2)
         | Inr l0 \<Rightarrow>
             (let w3 = emit (Call_replace_categories l0 d) w2
              in case replace_categories c l0 d of
                   Inl e \<Rightarrow> (Inl e, w3)
                 | Inr l1 \<Rightarrow>
                     (let l2 = sort_key cat (sort_key name l1)
                      in if CLEAN_FILTER d then
                           (let w4 = emit (Call_clean_filter l2 d) w3
                            in case clean_filter c l2 d of
                                 Inl e \<Rightarrow> (Inl e, w4)
                               | Inr l3 \<Rightarrow> write_loop c d h l3 (0, 0) w4)
                         else write_loop c d h l2 (0, 0) w3)))"

text \<open>
  Lines 36 to 61, the destination pipeline: make the directory, open the file, run the
  body, and close the file however the body ends (\<^verbatim>\<open>with closing(...)\<close>).
\<close>

definition generate :: "collab \<Rightarrow> data_set \<Rightarrow> world \<Rightarrow> (exn + int \<times> int) \<times> world" where
  "generate c d w =
     (case makedirs (dirname (OUT_FILE_NAME d)) (fs w) of
        (Some e, f1) \<Rightarrow> (Inl e, w\<lparr>fs := f1\<rparr>)
      | (None, f1) \<Rightarrow>
          (case open_w c (OUT_FILE_NAME d) (OUT_FILE_ENCODING d) (w\<lparr>fs := f1\<rparr>) of
             (Inl e, w1) \<Rightarrow> (Inl e, w1)
           | (Inr h, w1) \<Rightarrow>
               (case with_body c d h w1 of (r, w2) \<Rightarrow> (r, file_close h w2))))"

text \<open>Lines 33 to 73: the body of the loop over the data sets; \<open>k\<close> is
  \<^verbatim>\<open>data_set_number\<close> after its increment.\<close>

definition process_data_set ::
  "collab \<Rightarrow> config \<Rightarrow> int \<Rightarrow> data_set \<Rightarrow> world \<Rightarrow> exn option \<times> world" where
  "process_data_set c cfg k d w =
     (let n = int (length (DATA_SETS cfg));
          w0 = emit (Print [S ''Processing data set'', I k, S ''of'', I n]) w
      in case generate c d w0 of
           (Inl e, w1) \<Rightarrow> (Some e, w1)
         | (Inr (t, a), w1) \<Rightarrow>
             (let w2 = emit (Print [S ''Playlist'', S (OUT_FILE_NAME d), S ''successfully generated.'']) w1;
                  w3 = emit (Print [S ''Channels processed in total:'', I t]) w2;
                  w4 = emit (Print [S ''Channels allowed:'', I a]) w3;
                  w5 = emit (Print [S ''Channels denied:'', I (t - a)]) w4
              in if k < n then
                   (let w6 = emit (Print [S ''Sleeping for'', Delta (DATA_SET_DELAY cfg),
                                          S ''before processing next data set...'']) w5
                    in case sleep (DATA_SET_DELAY cfg) w6 of
                         (Some e, w7) \<Rightarrow> (Some e, w7)
                       | (None, w7) \<Rightarrow> (None, emit (Print [S '''']) w7))
                 else (None, emit (Print [S '''']) w5)))"

text \<open>Line 32: the loop over \<^verbatim>\<open>Config.DATA_SETS\<close>; \<open>k\<close> is \<^verbatim>\<open>data_set_number\<close> before the
  increment. An exception leaves the loop.\<close>

fun for_data_sets ::
  "collab \<Rightarrow> config \<Rightarrow> int \<Rightarrow> data_set list \<Rightarrow> world \<Rightarrow> exn option \<times> world" where
  "for_data_sets c cfg k [] w = (None, w)"
| "for_data_sets c cfg k (d # ds) w =
     (case process_data_set c cfg (k + 1) d w of
        (Some e, w1) \<Rightarrow> (Some e, w1)
      | (None, w1) \<Rightarrow> for_data_sets c cfg (k + 1) ds w1)"

text \<open>Lines 26 to 78: one round of the \<^verbatim>\<open>while True\<close> loop.\<close>

definition cycle :: "collab \<Rightarrow> config \<Rightarrow> world \<Rightarrow> exn option \<times> world" where
  "cycle c cfg w =
     (let w1 = emit (Print [S ''Started at'', Now]) w;
          w2 = emit Call_wait_for_internet w1
      in case wait_for_internet c of
           Some e \<Rightarrow> (Some e, w2)
         | None \<Rightarrow>
             (case for_data_sets c cfg 0 (DATA_SETS cfg) w2 of
                (Some e, w3) \<Rightarrow> (Some e, w3)
              | (None, w3) \<Rightarrow>
                  (let w4 = emit (Print [S ''Finished at'', Now]) w3;
                       w5 = emit (Print [S ''Sleeping for'', Delta (UPDATE_DELAY cfg),
                                         S ''before the new update...'']) w4;
                       w6 = emit (Print [S (replicate 45 (CHR ''-''))]) w5
                   in sleep (UPDATE_DELAY cfg) w6)))"

text \<open>
  \<^verbatim>\<open>main\<close> is \<^verbatim>\<open>while True\<close>: it has no normal return. \<open>main n\<close> runs it for at most \<open>n\<close>
  rounds: \<open>Some e\<close> when a round raised \<open>e\<close> (the loop is left), \<open>None\<close> when all \<open>n\<close>
  rounds went through and the loop goes on.
\<close>

fun main :: "nat \<Rightarrow> collab \<Rightarrow> config \<Rightarrow> world \<Rightarrow> exn option \<times> world" where
  "main 0 c cfg w = (None, w)"
| "main (Suc n) c cfg w =
     (case cycle c cfg w of
        (Some e, w1) \<Rightarrow> (Some e, w1)
      | (None, w1) \<Rightarrow> main n c cfg w1)"

section \<open>The entry point\<close>

text \<open>
  Lines 86 to 97, the handler of \<^verbatim>\<open>except Exception\<close>. An exception raised inside the
  handler is caught by nothing: the interpreter prints it and ends the process with
  status 1 (\<open>uncaught\<close>).
\<close>

definition uncaught :: "exn \<Rightarrow> world \<Rightarrow> int \<times> world" where
  "uncaught e w = (1, emit (Print_exc e) w)"

definition pause_and_exit :: "collab \<Rightarrow> config \<Rightarrow> world \<Rightarrow> int \<times> world" where
  "pause_and_exit c cfg w =
     (if PAUSE_ON_CRASH cfg then
        (let w1 = emit (Call_input ''Press <Enter> to exit...'') w
         in case input_line c of
              Inl e \<Rightarrow> uncaught e w1
            | Inr x \<Rightarrow> (1, emit (Call_exit 1) w1))
      else (1, emit (Call_exit 1) w))"

definition handler :: "collab \<Rightarrow> config \<Rightarrow> exn \<Rightarrow> world \<Rightarrow> int \<times> world" where
  "handler c cfg e w =
     (let w1 = emit (Print_exc e) w
      in if MAIL_ON_CRASH cfg then
           (let w2 = emit (Print_stderr [S ''Sending notification.'']) w1
            in case gethostname c of
                 Inl x \<Rightarrow> uncaught x w2
               | Inr h1 \<Rightarrow>
                   (case gethostname c of
                      Inl x \<Rightarrow> uncaught x w2
                    | Inr h2 \<Rightarrow>
                        (case gethostbyname c h2 of
                           Inl x \<Rightarrow> uncaught x w2
                         | Inr ip \<Rightarrow>
                             (let subject = ''M3UGenerator has crashed on '' @ h1 @ ''@'' @ ip;
                                  w3 = emit (Call_send_email subject (format_exc c e)) w2
                              in case send_email c subject (format_exc c e) of
                                   Some x \<Rightarrow> uncaught x w3
                                 | None \<Rightarrow> pause_and_exit c cfg w3))))
         else pause_and_exit c cfg w1)"

text \<open>Lines 82 to 97. \<open>None\<close>: the process is still running after \<open>n\<close> rounds.
  \<open>Some s\<close>: it has ended with exit status \<open>s\<close>.\<close>

definition entry_point :: "nat \<Rightarrow> collab \<Rightarrow> config \<Rightarrow> world \<Rightarrow> int option \<times> world" where
  "entry_point n c cfg w =
     (case main n c cfg w of
        (None, w1) \<Rightarrow> (None, w1)
      | (Some e, w1) \<Rightarrow> (case handler c cfg e w1 of (s, w2) \<Rightarrow> (Some s, w2)))"

section \<open>Notions used by the properties\<close>

text \<open>The order of the output: by category, and by name inside a category.\<close>

definition cat_name_le :: "channel \<Rightarrow> channel \<Rightarrow> bool" where
  "cat_name_le x y \<longleftrightarrow> cat x < cat y \<or> (cat x = cat y \<and> name x \<le> name y)"

text \<open>The channels handed to \<^verbatim>\<open>write_entry\<close>, in the order of the calls.\<close>

fun written :: "event list \<Rightarrow> channel list" where
  "written [] = []"
| "written (Call_write_entry ch d # es) = ch # written es"
| "written (e # es) = written es"

text \<open>The data sets for which \<^verbatim>\<open>get_channel_list\<close> was called, in the order of the calls.\<close>

fun fetched :: "event list \<Rightarrow> data_set list" where
  "fetched [] = []"
| "fetched (Call_get_channel_list d # es) = d # fetched es"
| "fetched (e # es) = fetched es"

text \<open>What happened between two states of the world.\<close>

definition since :: "world \<Rightarrow> world \<Rightarrow> event list" where
  "since w w' = drop (length (trace w)) (trace w')"

definition allowed :: "collab \<Rightarrow> data_set \<Rightarrow> channel \<Rightarrow> bool" where
  "allowed c d ch \<longleftrightarrow> is_channel_allowed c ch d = Inr True"

definition entry_text :: "collab \<Rightarrow> data_set \<Rightarrow> channel \<Rightarrow> string" where
  "entry_text c d ch = (case write_entry c ch d of Inl e \<Rightarrow> [] | Inr s \<Rightarrow> s)"

text \<open>
  What the specification says of the two list transformers: \<^verbatim>\<open>replace_categories\<close> rewrites
  category labels, so the collection keeps its size; \<^verbatim>\<open>clean_filter\<close> drops entries, so
  what is left is a subsequence of what it was given.
\<close>

definition remap_contract :: "collab \<Rightarrow> data_set \<Rightarrow> bool" where
  "remap_contract c d \<longleftrightarrow>
     (\<forall>l l'. replace_categories c l d = Inr l' \<longrightarrow> length l' = length l)"

definition clean_contract :: "collab \<Rightarrow> data_set \<Rightarrow> bool" where
  "clean_contract c d \<longleftrightarrow> (\<forall>l l'. clean_filter c l d = Inr l' \<longrightarrow> subseq l' l)"

text \<open>
  The channel list at the start of the write loop (line 56): fetched, categories
  replaced, sorted twice, and handed to \<^verbatim>\<open>clean_filter\<close> when the data set asks for it.
\<close>

definition collection :: "collab \<Rightarrow> data_set \<Rightarrow> exn + channel list" where
  "collection c d =
     (case get_channel_list c d of
        Inl e \<Rightarrow> Inl e
      | Inr l0 \<Rightarrow>
          (case replace_categories c l0 d of
             Inl e \<Rightarrow> Inl e
           | Inr l1 \<Rightarrow>
               (let l2 = sort_key cat (sort_key name l1)
                in if CLEAN_FILTER d then clean_filter c l2 d else Inr l2)))"

text \<open>The text of a complete output file for a given channel list.\<close>

definition output_text :: "collab \<Rightarrow> data_set \<Rightarrow> channel list \<Rightarrow> string" where
  "output_text c d l =
     OUT_FILE_FIRST_LINE d @ concat (map (entry_text c d) (filter (allowed c d) l))"

text \<open>The line printed before a data set is processed, and the four lines printed after
  its pipeline has completed.\<close>

definition announce :: "config \<Rightarrow> int \<Rightarrow> event" where
  "announce cfg k = Print [S ''Processing data set'', I k, S ''of'', I (int (length (DATA_SETS cfg)))]"

definition report :: "data_set \<Rightarrow> int \<Rightarrow> int \<Rightarrow> event list" where
  "report d t a =
     [Print [S ''Playlist'', S (OUT_FILE_NAME d), S ''successfully generated.''],
      Print [S ''Channels processed in total:'', I t],
      Print [S ''Channels allowed:'', I a],
      Print [S ''Channels denied:'', I (t - a)]]"

text \<open>The resolved paths that \<open>ensure_dirs\<close> visits: the prefixes of the components, below
  the start directory.\<close>

fun chain :: "string list \<Rightarrow> string list \<Rightarrow> string list list" where
  "chain pre [] = []"
| "chain pre (c # cs) = (pre @ [c]) # chain (pre @ [c]) cs"

text \<open>The subject of the crash notification (line 91), for a host name and its address.\<close>

definition crash_subject :: "string \<Rightarrow> string \<Rightarrow> string" where
  "crash_subject h ip = ''M3UGenerator has crashed on '' @ h @ ''@'' @ ip"

text \<open>The lists handed to \<^verbatim>\<open>clean_filter\<close>, in the order of the calls.\<close>

fun cleaned :: "event list \<Rightarrow> channel list list" where
  "cleaned [] = []"
| "cleaned (Call_clean_filter l d # es) = l # cleaned es"
| "cleaned (e # es) = cleaned es"

section \<open>Example data\<close>

text \<open>Two channels, a data set, a channel handler that allows everything, and a world with
  an empty file system, used to run the definitions on concrete inputs.\<close>

definition ch_a :: channel where
  "ch_a = \<lparr>name = ''A'', cat = ''News'', other = ''acestream://a''\<rparr>"

definition ch_b :: channel where
  "ch_b = \<lparr>name = ''B'', cat = ''Sports'', other = ''acestream://b''\<rparr>"

definition ch_x :: channel where
  "ch_x = \<lparr>name = ''C'', cat = ''News'', other = ''''\<rparr>"

definition ds_tv :: data_set where
  "ds_tv = \<lparr>OUT_FILE_NAME = ''out/tv.m3u'', OUT_FILE_ENCODING = ''utf-8'',
            OUT_FILE_FIRST_LINE = ''#EXTM3U'' @ [CHR 0x0A], CLEAN_FILTER = False, RULES = ''''\<rparr>"

definition handler0 :: collab where
  "handler0 =
     \<lparr>get_channel_list = (\<lambda>d. Inr [ch_b, ch_a]),
      replace_categories = (\<lambda>l d. Inr l),
      clean_filter = (\<lambda>l d. Inr (filter (\<lambda>ch. other ch \<noteq> []) l)),
      is_channel_allowed = (\<lambda>ch d. Inr True),
      write_entry = (\<lambda>ch d. Inr (cat ch @ ''/'' @ name ch @ [CHR 0x0A])),
      wait_for_internet = None,
      send_email = (\<lambda>s b. None),
      gethostname = Inr ''box'',
      gethostbyname = (\<lambda>h. Inr ''10.0.0.2''),
      codecs_lookup = (\<lambda>enc. enc = ''utf-8''),
      format_exc = (\<lambda>e. ''Traceback''),
      input_line = Inr ''''\<rparr>"

definition world0 :: world where
  "world0 = \<lparr>fs = Map.empty, handles = [], trace = []\<rparr>"



text \<open>Three data sets in one configuration, a channel handler that cannot fetch for
  the second, and one that refuses the Sports channel.\<close>

definition ds_a :: data_set where
  "ds_a = ds_tv\<lparr>OUT_FILE_NAME := ''out/a.m3u''\<rparr>"

definition ds_b :: data_set where
  "ds_b = ds_tv\<lparr>OUT_FILE_NAME := ''out/b.m3u''\<rparr>"

definition ds_c :: data_set where
  "ds_c = ds_tv\<lparr>OUT_FILE_NAME := ''out/c.m3u''\<rparr>"

definition cfg3 :: config where
  "cfg3 = \<lparr>DATA_SETS = [ds_a, ds_b, ds_c], DATA_SET_DELAY = 5, UPDATE_DELAY = 3600,
           MAIL_ON_CRASH = True, PAUSE_ON_CRASH = True\<rparr>"

definition cfg1 :: config where
  "cfg1 = \<lparr>DATA_SETS = [ds_tv], DATA_SET_DELAY = 5, UPDATE_DELAY = 3600,
           MAIL_ON_CRASH = True, PAUSE_ON_CRASH = True\<rparr>"

definition handler_b_down :: collab where
  "handler_b_down =
     handler0\<lparr>get_channel_list :=
       (\<lambda>d. if OUT_FILE_NAME d = ''out/b.m3u'' then Inl (Raised ''timeout'')
            else Inr [ch_b, ch_a])\<rparr>"

definition handler_no_sports :: collab where
  "handler_no_sports = handler0\<lparr>is_channel_allowed := (\<lambda>ch d. Inr (cat ch \<noteq> ''Sports''))\<rparr>"



definition handler_mail_down :: collab where
  "handler_mail_down = handler_b_down\<lparr>send_email := (\<lambda>s b. Some (Raised ''smtp''))\<rparr>"

text \<open>A channel handler whose \<^verbatim>\<open>clean_filter\<close> hands the list back in the opposite order,
  one that cannot fetch for the second data set and finds no address for the host name,
  and a world where a regular file has the name of the first of two output
  directories.\<close>

definition handler_reversing :: collab where
  "handler_reversing = handler0\<lparr>clean_filter := (\<lambda>l d. Inr (rev l))\<rparr>"

definition handler_no_dns :: collab where
  "handler_no_dns = handler_b_down\<lparr>gethostbyname := (\<lambda>h. Inl (Raised ''gaierror''))\<rparr>"


section \<open>Sorting\<close>

lemma insort_key_lex:
  fixes f :: "'a \<Rightarrow> 'k::linorder" and g :: "'a \<Rightarrow> 'j::linorder"
  assumes "sorted_wrt (\<lambda>x y. f x < f y \<or> (f x = f y \<and> g x \<le> g y)) zs"
    and "\<forall>z\<in>set zs. g y \<le> g z"
  shows "sorted_wrt (\<lambda>x y. f x < f y \<or> (f x = f y \<and> g x \<le> g y)) (insort_key f y zs)"
  using assms
proof (induction zs)
  case Nil
  then show ?case by simp
next
  case (Cons z zs)
  show ?case
  proof (cases "f y \<le> f z")
    case True
    have "\<forall>w\<in>set zs. f z \<le> f w" using Cons.prems(1) by auto
    with True Cons.prems show ?thesis by (auto simp: less_le)
  next
    case False
    with Cons show ?thesis by (auto simp: set_insort_key)
  qed
qed

lemma sort_key_lex:
  fixes f :: "'a \<Rightarrow> 'k::linorder" and g :: "'a \<Rightarrow> 'j::linorder"
  assumes "sorted (map g ys)"
  shows "sorted_wrt (\<lambda>x y. f x < f y \<or> (f x = f y \<and> g x \<le> g y)) (sort_key f ys)"
  using assms
proof (induction ys)
  case Nil
  then show ?case by simp
next
  case (Cons y ys)
  then show ?case by (simp add: insort_key_lex)
qed

lemma two_pass_sort: "sorted_wrt cat_name_le (sort_key cat (sort_key name xs))"
  unfolding cat_name_le_def
  by (rule sort_key_lex) (rule sorted_sort_key)

lemma sorted_wrt_subseq:
  "subseq xs ys \<Longrightarrow> sorted_wrt R ys \<Longrightarrow> sorted_wrt R xs"
proof (induction rule: list_emb.induct)
  case (list_emb_Nil ys)
  then show ?case by simp
next
  case (list_emb_Cons xs ys y)
  then show ?case by simp
next
  case (list_emb_Cons2 x y xs ys)
  then have "set xs \<subseteq> set ys" by (auto dest: list_emb_set)
  with list_emb_Cons2 show ?case by auto
qed

section \<open>The write loop\<close>

lemma written_append: "written (xs @ ys) = written xs @ written ys"
  by (induction xs rule: written.induct) simp_all

lemma fetched_append: "fetched (xs @ ys) = fetched xs @ fetched ys"
  by (induction xs rule: fetched.induct) simp_all

lemma since_append: "trace w' = trace w @ evs \<Longrightarrow> since w w' = evs"
  by (simp add: since_def)

lemma write_loop_trace:
  "write_loop c d h xs (t, a) w = (r, w') \<Longrightarrow>
   \<exists>evs. trace w' = trace w @ evs \<and> prefix (written evs) (filter (allowed c d) xs) \<and>
     fetched evs = [] \<and>
     (\<forall>t' a'. r = Inr (t', a') \<longrightarrow>
        written evs = filter (allowed c d) xs \<and> t' = t + int (length xs) \<and>
        a' = a + int (length (filter (allowed c d) xs)))"
proof (induction xs arbitrary: t a w)
  case Nil
  then show ?case by auto
next
  case (Cons ch rest)
  show ?case
  proof (cases "is_channel_allowed c ch d")
    case (Inl e)
    with Cons.prems show ?thesis by (auto simp: emit_def)
  next
    case (Inr ok)
    show ?thesis
    proof (cases ok)
      case False
      with Inr Cons.prems
      have "write_loop c d h rest (t + 1, a) (emit (Call_is_channel_allowed ch d) w) = (r, w')"
        by simp
      from Cons.IH[OF this] False Inr show ?thesis
        by (auto simp: emit_def allowed_def written_append fetched_append)
    next
      case True
      show ?thesis
      proof (cases "write_entry c ch d")
        case (Inl e)
        with True Inr Cons.prems show ?thesis
          by (auto simp: emit_def allowed_def)
      next
        case (Inr s)
        with True \<open>is_channel_allowed c ch d = Inr ok\<close> Cons.prems
        have "write_loop c d h rest (t + 1, a + 1)
                (file_write h s (emit (Call_write_entry ch d) (emit (Call_is_channel_allowed ch d) w)))
              = (r, w')"
          by simp
        from Cons.IH[OF this] True \<open>is_channel_allowed c ch d = Inr ok\<close> show ?thesis
          by (auto simp: emit_def file_write_def allowed_def written_append fetched_append)
      qed
    qed
  qed
qed


lemma write_loop_file:
  "fs w h = Some (File x) \<Longrightarrow> write_loop c d h xs (t, a) w = (r, w') \<Longrightarrow>
   \<exists>txt. fs w' = (fs w)(h \<mapsto> File (x @ txt)) \<and>
     (\<forall>ta. r = Inr ta \<longrightarrow> txt = concat (map (entry_text c d) (filter (allowed c d) xs)))"
proof (induction xs arbitrary: t a w x)
  case Nil
  then show ?case by (auto intro!: exI[of _ "[]"])
next
  case (Cons ch rest)
  show ?case
  proof (cases "is_channel_allowed c ch d")
    case (Inl e)
    with Cons.prems show ?thesis by (auto simp: emit_def intro!: exI[of _ "[]"])
  next
    case (Inr ok)
    show ?thesis
    proof (cases ok)
      case False
      with Inr Cons.prems
      have "write_loop c d h rest (t + 1, a) (emit (Call_is_channel_allowed ch d) w) = (r, w')"
        by simp
      moreover have "fs (emit (Call_is_channel_allowed ch d) w) h = Some (File x)"
        using Cons.prems by (simp add: emit_def)
      ultimately show ?thesis using Cons.IH False Inr
        by (fastforce simp: emit_def allowed_def)
    next
      case True
      show ?thesis
      proof (cases "write_entry c ch d")
        case (Inl e)
        with True Inr Cons.prems show ?thesis
          by (auto simp: emit_def allowed_def intro!: exI[of _ "[]"])
      next
        case (Inr s)
        let ?w2 = "file_write h s (emit (Call_write_entry ch d) (emit (Call_is_channel_allowed ch d) w))"
        from Inr True \<open>is_channel_allowed c ch d = Inr ok\<close> Cons.prems
        have run: "write_loop c d h rest (t + 1, a + 1) ?w2 = (r, w')"
          by simp
        have f2: "fs ?w2 = (fs w)(h \<mapsto> File (x @ s))"
          using Cons.prems(1) by (simp add: emit_def file_write_def content_def)
        then have "fs ?w2 h = Some (File (x @ s))" by simp
        from Cons.IH[OF this run] obtain txt' where
          t': "fs w' = (fs ?w2)(h \<mapsto> File ((x @ s) @ txt'))"
            "\<forall>ta. r = Inr ta \<longrightarrow> txt' = concat (map (entry_text c d) (filter (allowed c d) rest))"
          by blast
        have "fs w' = (fs w)(h \<mapsto> File (x @ (s @ txt')))"
          using t'(1) f2 by simp
        moreover have "\<forall>ta. r = Inr ta \<longrightarrow>
            s @ txt' = concat (map (entry_text c d) (filter (allowed c d) (ch # rest)))"
          using t'(2) True Inr \<open>is_channel_allowed c ch d = Inr ok\<close>
          by (simp add: allowed_def entry_text_def)
        ultimately show ?thesis by blast
      qed
    qed
  qed
qed

section \<open>The pipeline of one data set\<close>


lemma collection_sorted:
  assumes "collection c d = Inr l" and "CLEAN_FILTER d \<longrightarrow> clean_contract c d"
  shows "sorted_wrt cat_name_le l"
proof -
  from assms(1) obtain l0 l1 where
    l1: "get_channel_list c d = Inr l0" "replace_categories c l0 d = Inr l1"
    and l: "if CLEAN_FILTER d then clean_filter c (sort_key cat (sort_key name l1)) d = Inr l
            else l = sort_key cat (sort_key name l1)"
    by (auto simp: collection_def Let_def split: sum.splits if_splits)
  show ?thesis
  proof (cases "CLEAN_FILTER d")
    case True
    with l assms(2) have "subseq l (sort_key cat (sort_key name l1))"
      by (auto simp: clean_contract_def)
    then show ?thesis by (rule sorted_wrt_subseq) (rule two_pass_sort)
  next
    case False
    with l show ?thesis by (simp add: two_pass_sort)
  qed
qed

lemma with_body_cases:
  assumes "with_body c d h w = (r, w')"
  obtains (fail) e evs where "collection c d = Inl e" "r = Inl e"
      "trace w' = trace w @ Call_get_channel_list d # evs" "written evs = []" "fetched evs = []"
      "fs w' = fs (file_write h (OUT_FILE_FIRST_LINE d) w)"
    | (loop) l evs w1 where "collection c d = Inr l"
      "trace w1 = trace w @ Call_get_channel_list d # evs" "written evs = []" "fetched evs = []"
      "fs w1 = fs (file_write h (OUT_FILE_FIRST_LINE d) w)"
      "write_loop c d h l (0, 0) w1 = (r, w')"
proof (cases "get_channel_list c d")
  case (Inl e)
  with assms show ?thesis
    by (intro fail[where e=e and evs="[]"]) (auto simp: with_body_def collection_def Let_def emit_def file_write_def)
next
  case l0: (Inr l0)
  show ?thesis
  proof (cases "replace_categories c l0 d")
    case (Inl e)
    with l0 assms show ?thesis
      by (intro fail[where e=e and evs="[Call_replace_categories l0 d]"])
         (auto simp: with_body_def collection_def Let_def emit_def file_write_def)
  next
    case l1: (Inr l1)
    let ?l2 = "sort_key cat (sort_key name l1)"
    show ?thesis
    proof (cases "CLEAN_FILTER d")
      case False
      with l0 l1 assms show ?thesis
        by (intro loop[where l="?l2" and evs="[Call_replace_categories l0 d]" and ?w1.0=
              "emit (Call_replace_categories l0 d) (emit (Call_get_channel_list d)
                 (file_write h (OUT_FILE_FIRST_LINE d) w))"])
           (auto simp: with_body_def collection_def Let_def emit_def file_write_def)
    next
      case True
      show ?thesis
      proof (cases "clean_filter c ?l2 d")
        case (Inl e)
        with True l0 l1 assms show ?thesis
          by (intro fail[where e=e and evs="[Call_replace_categories l0 d, Call_clean_filter ?l2 d]"])
             (auto simp: with_body_def collection_def Let_def emit_def file_write_def)
      next
        case (Inr l3)
        with True l0 l1 assms show ?thesis
          by (intro loop[where l=l3 and evs="[Call_replace_categories l0 d, Call_clean_filter ?l2 d]" and ?w1.0=
                "emit (Call_clean_filter ?l2 d) (emit (Call_replace_categories l0 d)
                   (emit (Call_get_channel_list d) (file_write h (OUT_FILE_FIRST_LINE d) w)))"])
             (auto simp: with_body_def collection_def Let_def emit_def file_write_def)
      qed
    qed
  qed
qed


lemma since_refl [simp]: "since w w = []"
  by (simp add: since_def)

lemma open_w_ok:
  assumes "open_w c nm enc w = (Inr h, w1)"
  shows "h = resolve nm" "h \<noteq> []" "fs w1 = (fs w)(h \<mapsto> File [])" "handles w1 = h # handles w"
    "trace w1 = trace w" "node_at (fs w) (butlast h) = Some Dir" "node_at (fs w) h \<noteq> Some Dir"
    "codecs_lookup c enc" "nm \<noteq> []" "last nm \<noteq> CHR ''/''"
  using assms
  by (auto simp: open_w_def Let_def node_at_def split: if_splits option.splits node.splits)

lemma open_w_fail:
  assumes "open_w c nm enc w = (Inl e, w1)"
  shows "handles w1 = handles w" "trace w1 = trace w"
  using assms
  by (auto simp: open_w_def Let_def split: if_splits option.splits node.splits)

lemma generate_cases:
  assumes "generate c d w = (r, w')"
  obtains (dir_fail) e f1 where "makedirs (dirname (OUT_FILE_NAME d)) (fs w) = (Some e, f1)"
      "r = Inl e" "w' = w\<lparr>fs := f1\<rparr>"
    | (open_fail) e f1 where "makedirs (dirname (OUT_FILE_NAME d)) (fs w) = (None, f1)"
      "open_w c (OUT_FILE_NAME d) (OUT_FILE_ENCODING d) (w\<lparr>fs := f1\<rparr>) = (Inl e, w')" "r = Inl e"
    | (opened) f1 h w1 w2 where "makedirs (dirname (OUT_FILE_NAME d)) (fs w) = (None, f1)"
      "open_w c (OUT_FILE_NAME d) (OUT_FILE_ENCODING d) (w\<lparr>fs := f1\<rparr>) = (Inr h, w1)"
      "with_body c d h w1 = (r, w2)" "w' = file_close h w2"
  using assms unfolding generate_def
  by (auto split: prod.splits option.splits sum.splits)


text \<open>What a run of the pipeline adds to the trace.\<close>

lemma generate_trace:
  assumes "generate c d w = (r, w')"
  shows "\<exists>evs. trace w' = trace w @ evs \<and> prefix (fetched evs) [d] \<and>
           (\<exists>l. prefix (written evs) (filter (allowed c d) l) \<and>
                (written evs \<noteq> [] \<longrightarrow> collection c d = Inr l))"
  using assms
proof (cases rule: generate_cases)
  case (dir_fail e f1)
  then show ?thesis by (auto intro!: exI[of _ "[]"])
next
  case (open_fail e f1)
  then show ?thesis by (auto simp: open_w_fail intro!: exI[of _ "[]"])
next
  case (opened f1 h w1 w2)
  have t1: "trace w1 = trace w" using opened(2) by (simp add: open_w_ok)
  have t': "trace w' = trace w2" using opened(4) by (simp add: file_close_def)
  from opened(3) show ?thesis
  proof (cases rule: with_body_cases)
    case (fail e evs)
    with t1 t' show ?thesis
      by (auto intro!: exI[of _ "Call_get_channel_list d # evs"] exI[of _ "[]"])
  next
    case (loop l evs wl)
    from write_loop_trace[OF loop(6)] obtain evs2 where
      e2: "trace w2 = trace wl @ evs2" "prefix (written evs2) (filter (allowed c d) l)"
      and f2: "fetched evs2 = []"
      by blast
    show ?thesis
      using e2 f2 loop t1 t'
      by (auto simp: written_append fetched_append
               intro!: exI[of _ "Call_get_channel_list d # evs @ evs2"] exI[of _ l])
  qed
qed

lemma generate_success:
  assumes "generate c d w = (Inr (t, a), w')"
  obtains f1 l where "makedirs (dirname (OUT_FILE_NAME d)) (fs w) = (None, f1)"
    "open_w c (OUT_FILE_NAME d) (OUT_FILE_ENCODING d) (w\<lparr>fs := f1\<rparr>)
       = (Inr (resolve (OUT_FILE_NAME d)),
          w\<lparr>fs := f1(resolve (OUT_FILE_NAME d) \<mapsto> File []),
            handles := resolve (OUT_FILE_NAME d) # handles w\<rparr>)"
    "collection c d = Inr l" "t = int (length l)" "a = int (length (filter (allowed c d) l))"
    "written (since w w') = filter (allowed c d) l" "fetched (since w w') = [d]"
    "fs w' = f1(resolve (OUT_FILE_NAME d) \<mapsto> File (output_text c d l))"
  using assms
proof (cases rule: generate_cases)
  case (dir_fail e f1)
  then show ?thesis by simp
next
  case (open_fail e f1)
  then show ?thesis by simp
next
  case (opened f1 h w1 w2)
  note o = open_w_ok[OF opened(2)]
  have t': "trace w' = trace w2" "fs w' = fs w2" using opened(4) by (simp_all add: file_close_def)
  have w1: "w1 = w\<lparr>fs := f1(h \<mapsto> File []), handles := h # handles w\<rparr>"
    using o(3,4,5) by (cases w1, cases w) simp
  from opened(3) show ?thesis
  proof (cases rule: with_body_cases)
    case (fail e evs)
    then show ?thesis by simp
  next
    case (loop l evs wl)
    from write_loop_trace[OF loop(6)] obtain evs2 where
      e2: "trace w2 = trace wl @ evs2" "fetched evs2 = []" "written evs2 = filter (allowed c d) l"
        "t = int (length l)" "a = int (length (filter (allowed c d) l))"
      by auto
    have fl: "fs wl = f1(h \<mapsto> File (OUT_FILE_FIRST_LINE d))"
      using loop(5) o(3) by (simp add: file_write_def content_def)
    then have "fs wl h = Some (File (OUT_FILE_FIRST_LINE d))" by simp
    from write_loop_file[OF this loop(6)] fl
    have f2: "fs w2 = f1(h \<mapsto> File (output_text c d l))"
      by (auto simp: output_text_def)
    have tr: "trace w' = trace w @ Call_get_channel_list d # evs @ evs2"
      using t'(1) e2(1) loop(2) o(5) by simp
    show ?thesis
    proof (rule that[of f1 l])
      show "makedirs (dirname (OUT_FILE_NAME d)) (fs w) = (None, f1)" by (rule opened(1))
      show "open_w c (OUT_FILE_NAME d) (OUT_FILE_ENCODING d) (w\<lparr>fs := f1\<rparr>)
       = (Inr (resolve (OUT_FILE_NAME d)),
          w\<lparr>fs := f1(resolve (OUT_FILE_NAME d) \<mapsto> File []),
            handles := resolve (OUT_FILE_NAME d) # handles w\<rparr>)"
        using opened(2) w1 o(1) by simp
      show "collection c d = Inr l" by (rule loop(1))
      show "t = int (length l)" by (rule e2(4))
      show "a = int (length (filter (allowed c d) l))" by (rule e2(5))
      show "written (since w w') = filter (allowed c d) l"
        using since_append[OF tr] e2(3) loop(3) by (simp add: written_append)
      show "fetched (since w w') = [d]"
        using since_append[OF tr] e2(2) loop(4) by (simp add: fetched_append)
      show "fs w' = f1(resolve (OUT_FILE_NAME d) \<mapsto> File (output_text c d l))"
        using t'(2) f2 o(1) by simp
    qed
  qed
qed

section \<open>Running the definitions\<close>

text \<open>The equations that evaluate a run of the pipeline on the example data.\<close>

lemmas run_simps = generate_def makedirs_def dirname_def resolve_def open_w_def node_at_def
  with_body_def file_write_def file_close_def emit_def content_def since_def Let_def
  ch_a_def ch_b_def ch_x_def ds_tv_def handler0_def world0_def


lemmas cycle_simps = run_simps process_data_set_def cycle_def sleep_def announce_def
  ds_a_def ds_b_def ds_c_def cfg3_def cfg1_def handler_b_down_def handler_no_sports_def

lemmas crash_simps = cycle_simps entry_point_def handler_def pause_and_exit_def uncaught_def
  since_def crash_subject_def handler_mail_down_def handler_no_dns_def

section \<open>Order of the output\<close>

lemma cleaned_append: "cleaned (xs @ ys) = cleaned xs @ cleaned ys"
  by (induction xs rule: cleaned.induct) simp_all

lemma write_loop_cleaned:
  "write_loop c d h xs (t, a) w = (r, w') \<Longrightarrow> \<exists>evs. trace w' = trace w @ evs \<and> cleaned evs = []"
proof (induction xs arbitrary: t a w)
  case Nil
  then show ?case by simp
next
  case (Cons ch rest)
  show ?case
  proof (cases "is_channel_allowed c ch d")
    case (Inl e)
    with Cons.prems show ?thesis by (auto simp: emit_def)
  next
    case (Inr ok)
    show ?thesis
    proof (cases ok)
      case False
      with Inr Cons.prems
      have "write_loop c d h rest (t + 1, a) (emit (Call_is_channel_allowed ch d) w) = (r, w')"
        by simp
      from Cons.IH[OF this] show ?thesis by (auto simp: emit_def)
    next
      case True
      show ?thesis
      proof (cases "write_entry c ch d")
        case (Inl e)
        with True Inr Cons.prems show ?thesis by (auto simp: emit_def)
      next
        case (Inr s)
        with True \<open>is_channel_allowed c ch d = Inr ok\<close> Cons.prems
        have "write_loop c d h rest (t + 1, a + 1)
                (file_write h s (emit (Call_write_entry ch d) (emit (Call_is_channel_allowed ch d) w)))
              = (r, w')"
          by simp
        from Cons.IH[OF this] show ?thesis by (auto simp: emit_def file_write_def)
      qed
    qed
  qed
qed

lemma with_body_cleaned:
  assumes "with_body c d h w = (r, w')"
  shows "\<exists>evs. trace w' = trace w @ evs \<and>
           (\<forall>l\<in>set (cleaned evs). CLEAN_FILTER d \<and> sorted_wrt cat_name_le l)"
proof (cases "get_channel_list c d")
  case (Inl e)
  with assms show ?thesis by (auto simp: with_body_def Let_def emit_def file_write_def)
next
  case l0: (Inr l0)
  show ?thesis
  proof (cases "replace_categories c l0 d")
    case (Inl e)
    with l0 assms show ?thesis by (auto simp: with_body_def Let_def emit_def file_write_def)
  next
    case l1: (Inr l1)
    let ?l2 = "sort_key cat (sort_key name l1)"
    let ?w3 = "emit (Call_replace_categories l0 d) (emit (Call_get_channel_list d)
                 (file_write h (OUT_FILE_FIRST_LINE d) w))"
    show ?thesis
    proof (cases "CLEAN_FILTER d")
      case False
      with l0 l1 assms have "write_loop c d h ?l2 (0, 0) ?w3 = (r, w')"
        by (simp add: with_body_def Let_def)
      from write_loop_cleaned[OF this] show ?thesis
        by (auto simp: emit_def file_write_def cleaned_append)
    next
      case True
      let ?w4 = "emit (Call_clean_filter ?l2 d) ?w3"
      show ?thesis
      proof (cases "clean_filter c ?l2 d")
        case (Inl e)
        with True l0 l1 assms show ?thesis
          by (auto simp: with_body_def Let_def emit_def file_write_def two_pass_sort)
      next
        case (Inr l3)
        with True l0 l1 assms have "write_loop c d h l3 (0, 0) ?w4 = (r, w')"
          by (simp add: with_body_def Let_def)
        from write_loop_cleaned[OF this] obtain evs where
          "trace w' = trace ?w4 @ evs" "cleaned evs = []" by blast
        then have "trace w' = trace w @ [Call_get_channel_list d, Call_replace_categories l0 d,
                      Call_clean_filter ?l2 d] @ evs"
          "cleaned ([Call_get_channel_list d, Call_replace_categories l0 d,
                      Call_clean_filter ?l2 d] @ evs) = [?l2]"
          by (simp_all add: emit_def file_write_def)
        with True show ?thesis using two_pass_sort[of l1] by (metis empty_iff empty_set set_ConsD)
      qed
    qed
  qed
qed

lemma generate_cleaned:
  assumes "generate c d w = (r, w')"
  shows "\<forall>l\<in>set (cleaned (since w w')). CLEAN_FILTER d \<and> sorted_wrt cat_name_le l"
  using assms
proof (cases rule: generate_cases)
  case (dir_fail e f1)
  then show ?thesis by (simp add: since_def)
next
  case (open_fail e f1)
  then show ?thesis by (simp add: since_def open_w_fail)
next
  case (opened f1 h w1 w2)
  from with_body_cleaned[OF opened(3)] obtain evs where
    e: "trace w2 = trace w1 @ evs"
       "\<forall>l\<in>set (cleaned evs). CLEAN_FILTER d \<and> sorted_wrt cat_name_le l"
    by blast
  have "trace w' = trace w @ evs" using e(1) opened(4) open_w_ok(5)[OF opened(2)]
    by (simp add: file_close_def)
  then have "since w w' = evs" by (rule since_append)
  with e(2) show ?thesis by simp
qed

text \<open>
  C1, as the code has it: the two stable sorts of lines 50 and 51, by name and then by
  category, run before the \<^verbatim>\<open>CLEAN_FILTER\<close> test and so whatever its value. With
  \<^verbatim>\<open>CLEAN_FILTER\<close> not set, the channels handed to \<^verbatim>\<open>write_entry\<close> by one run of the
  pipeline come in non-decreasing order of category and, inside one category, in
  non-decreasing order of name. With \<^verbatim>\<open>CLEAN_FILTER\<close> set, the list handed to
  \<^verbatim>\<open>clean_filter\<close> is in that order, and the loop runs over what \<^verbatim>\<open>clean_filter\<close> returns:
  the channels handed to \<^verbatim>\<open>write_entry\<close> are in that order when \<^verbatim>\<open>clean_filter\<close> returns
  a subsequence of the list it was given. \<^verbatim>\<open>clean_filter\<close> is called only when
  \<^verbatim>\<open>CLEAN_FILTER\<close> is set.
\<close>

theorem written_in_order:
  "(\<forall>l\<in>set (cleaned (since w (snd (generate c d w)))). CLEAN_FILTER d \<and> sorted_wrt cat_name_le l) \<and>
   (\<not> CLEAN_FILTER d \<longrightarrow> sorted_wrt cat_name_le (written (since w (snd (generate c d w))))) \<and>
   (CLEAN_FILTER d \<longrightarrow> clean_contract c d \<longrightarrow>
      sorted_wrt cat_name_le (written (since w (snd (generate c d w)))))"
proof -
  obtain r w' where g: "generate c d w = (r, w')" by (cases "generate c d w")
  from generate_trace[OF g] obtain evs l where
    e: "trace w' = trace w @ evs" "prefix (written evs) (filter (allowed c d) l)"
      "written evs \<noteq> [] \<longrightarrow> collection c d = Inr l"
    by blast
  have s: "sorted_wrt cat_name_le (written evs)" if a: "CLEAN_FILTER d \<longrightarrow> clean_contract c d"
  proof (cases "written evs = []")
    case True
    then show ?thesis by simp
  next
    case False
    with e(3) have "collection c d = Inr l" by simp
    then have "sorted_wrt cat_name_le l" using a by (rule collection_sorted)
    moreover have "subseq (written evs) l"
      using e(2) by (meson prefix_imp_subseq subseq_filter_left subseq_order.order_trans)
    ultimately show ?thesis by (rule sorted_wrt_subseq[rotated])
  qed
  have w: "written (since w (snd (generate c d w))) = written evs"
    using e(1) g by (simp add: since_append)
  from generate_cleaned[OF g] g
  have "\<forall>l\<in>set (cleaned (since w (snd (generate c d w)))). CLEAN_FILTER d \<and> sorted_wrt cat_name_le l"
    by simp
  with s w show ?thesis by simp
qed

text \<open>The data set of the example, with \<^verbatim>\<open>CLEAN_FILTER\<close> set and not set: the list handed to
  \<^verbatim>\<open>clean_filter\<close> is News/A, Sports/B, and News/A is written before Sports/B.\<close>

theorem written_in_order_witness:
  "clean_contract handler0 (ds_tv\<lparr>CLEAN_FILTER := True\<rparr>) \<and>
   CLEAN_FILTER (ds_tv\<lparr>CLEAN_FILTER := True\<rparr>) \<and>
   cleaned (since world0 (snd (generate handler0 (ds_tv\<lparr>CLEAN_FILTER := True\<rparr>) world0)))
     = [[ch_a, ch_b]] \<and>
   sorted_wrt cat_name_le [ch_a, ch_b] \<and>
   written (since world0 (snd (generate handler0 (ds_tv\<lparr>CLEAN_FILTER := True\<rparr>) world0)))
     = [ch_a, ch_b] \<and>
   sorted_wrt cat_name_le
     (written (since world0 (snd (generate handler0 (ds_tv\<lparr>CLEAN_FILTER := True\<rparr>) world0)))) \<and>
   \<not> CLEAN_FILTER ds_tv \<and>
   written (since world0 (snd (generate handler0 ds_tv world0))) = [ch_a, ch_b] \<and>
   sorted_wrt cat_name_le (written (since world0 (snd (generate handler0 ds_tv world0))))"
proof -
  let ?d = "ds_tv\<lparr>CLEAN_FILTER := True\<rparr>"
  have h: "clean_contract handler0 ?d"
    by (simp add: clean_contract_def handler0_def)
  have t: "CLEAN_FILTER ?d" "\<not> CLEAN_FILTER ds_tv" by (simp_all add: ds_tv_def)
  have c: "cleaned (since world0 (snd (generate handler0 ?d world0))) = [[ch_a, ch_b]]"
    by (simp add: run_simps)
  have v: "written (since world0 (snd (generate handler0 ?d world0))) = [ch_a, ch_b]"
    by (simp add: run_simps)
  have v0: "written (since world0 (snd (generate handler0 ds_tv world0))) = [ch_a, ch_b]"
    by (simp add: run_simps)
  from written_in_order[of world0 handler0 ?d] h t(1) c
  have s1: "sorted_wrt cat_name_le [ch_a, ch_b]"
    and s2: "sorted_wrt cat_name_le (written (since world0 (snd (generate handler0 ?d world0))))"
    by simp_all
  from written_in_order[of world0 handler0 ds_tv] t(2)
  have s3: "sorted_wrt cat_name_le (written (since world0 (snd (generate handler0 ds_tv world0))))"
    by simp
  from h t c v v0 s1 s2 s3 show ?thesis by blast
qed

text \<open>
  The claim as the specification states it, that the entries written are in order whether
  or not \<^verbatim>\<open>CLEAN_FILTER\<close> is set, fails: nothing sorts the list after \<^verbatim>\<open>clean_filter\<close>, and
  with a \<^verbatim>\<open>clean_filter\<close> that hands the sorted list back in the opposite order Sports/B
  is written before News/A.
\<close>

theorem reversed_counterexample:
  "CLEAN_FILTER (ds_tv\<lparr>CLEAN_FILTER := True\<rparr>) \<and>
   get_channel_list handler_reversing (ds_tv\<lparr>CLEAN_FILTER := True\<rparr>) = Inr [ch_b, ch_a] \<and>
   fst (generate handler_reversing (ds_tv\<lparr>CLEAN_FILTER := True\<rparr>) world0) = Inr (2, 2) \<and>
   cleaned (since world0 (snd (generate handler_reversing (ds_tv\<lparr>CLEAN_FILTER := True\<rparr>) world0)))
     = [[ch_a, ch_b]] \<and>
   written (since world0 (snd (generate handler_reversing (ds_tv\<lparr>CLEAN_FILTER := True\<rparr>) world0)))
     = [ch_b, ch_a] \<and>
   \<not> sorted_wrt cat_name_le
       (written (since world0 (snd (generate handler_reversing (ds_tv\<lparr>CLEAN_FILTER := True\<rparr>) world0))))"
  by (simp add: run_simps handler_reversing_def cat_name_le_def)

section \<open>Header and counters\<close>

lemma collection_empty:
  assumes "get_channel_list c d = Inr []" and "remap_contract c d"
    and "CLEAN_FILTER d \<longrightarrow> clean_contract c d" and "collection c d = Inr l"
  shows "l = []"
proof -
  from assms(1,4) obtain l1 where l1: "replace_categories c [] d = Inr l1"
    and l: "if CLEAN_FILTER d then clean_filter c (sort_key cat (sort_key name l1)) d = Inr l
            else l = sort_key cat (sort_key name l1)"
    by (auto simp: collection_def Let_def split: sum.splits if_splits)
  from l1 assms(2) have "length l1 = length ([] :: channel list)"
    unfolding remap_contract_def by blast
  then have "l1 = []" by simp
  show ?thesis
  proof (cases "CLEAN_FILTER d")
    case True
    with l \<open>l1 = []\<close> have "clean_filter c [] d = Inr l" by simp
    moreover from True assms(3) have "clean_contract c d" by simp
    ultimately have "subseq l []" unfolding clean_contract_def by blast
    then show ?thesis by simp
  next
    case False
    with l \<open>l1 = []\<close> show ?thesis by simp
  qed
qed

text \<open>
  C2: the file a completed run leaves at the output path starts with the first line
  configured for the data set. When the fetched list is empty (and the two list
  transformers keep to what the specification says of them, so that the list stays
  empty), the file is that first line and nothing else, and the counters are 0 and 0.
\<close>

theorem header_first:
  assumes "generate c d w = (Inr (t, a), w')"
  shows "(\<exists>rest. fs w' (resolve (OUT_FILE_NAME d)) = Some (File (OUT_FILE_FIRST_LINE d @ rest))) \<and>
         (get_channel_list c d = Inr [] \<and> remap_contract c d \<and>
          (CLEAN_FILTER d \<longrightarrow> clean_contract c d) \<longrightarrow>
            fs w' (resolve (OUT_FILE_NAME d)) = Some (File (OUT_FILE_FIRST_LINE d)) \<and>
            t = 0 \<and> a = 0)"
proof -
  from assms obtain f1 l where
    s: "collection c d = Inr l" "t = int (length l)" "a = int (length (filter (allowed c d) l))"
       "fs w' = f1(resolve (OUT_FILE_NAME d) \<mapsto> File (output_text c d l))"
    by (rule generate_success)
  have "fs w' (resolve (OUT_FILE_NAME d)) =
          Some (File (OUT_FILE_FIRST_LINE d @ concat (map (entry_text c d) (filter (allowed c d) l))))"
    using s(4) by (simp add: output_text_def)
  moreover have "l = []"
    if "get_channel_list c d = Inr []" "remap_contract c d" "CLEAN_FILTER d \<longrightarrow> clean_contract c d"
    using that s(1) by (rule collection_empty)
  ultimately show ?thesis using s(2,3) by auto
qed

text \<open>The example with an empty fetched list: the file is the header, the counters are
  \<open>(0, 0)\<close>.\<close>

theorem header_first_witness:
  "get_channel_list (handler0\<lparr>get_channel_list := (\<lambda>d. Inr [])\<rparr>) ds_tv = Inr [] \<and>
   remap_contract (handler0\<lparr>get_channel_list := (\<lambda>d. Inr [])\<rparr>) ds_tv \<and>
   clean_contract (handler0\<lparr>get_channel_list := (\<lambda>d. Inr [])\<rparr>) ds_tv \<and>
   fst (generate (handler0\<lparr>get_channel_list := (\<lambda>d. Inr [])\<rparr>) ds_tv world0) = Inr (0, 0) \<and>
   fs (snd (generate (handler0\<lparr>get_channel_list := (\<lambda>d. Inr [])\<rparr>) ds_tv world0))
      [''out'', ''tv.m3u''] = Some (File (''#EXTM3U'' @ [CHR 0x0A]))"
proof -
  let ?c = "handler0\<lparr>get_channel_list := (\<lambda>d. Inr [])\<rparr>"
  have g: "generate ?c ds_tv world0 = (Inr (0, 0), snd (generate ?c ds_tv world0))"
    by (simp add: run_simps)
  have k: "remap_contract ?c ds_tv" "clean_contract ?c ds_tv"
    by (simp_all add: remap_contract_def clean_contract_def handler0_def)
  have e: "get_channel_list ?c ds_tv = Inr []" by simp
  have r: "resolve (OUT_FILE_NAME ds_tv) = [''out'', ''tv.m3u'']"
    and h: "OUT_FILE_FIRST_LINE ds_tv = ''#EXTM3U'' @ [CHR 0x0A]"
    by (simp_all add: resolve_def ds_tv_def)
  from header_first[OF g] e k
  have "fs (snd (generate ?c ds_tv world0)) (resolve (OUT_FILE_NAME ds_tv))
          = Some (File (OUT_FILE_FIRST_LINE ds_tv))"
    by blast
  then have f: "fs (snd (generate ?c ds_tv world0)) [''out'', ''tv.m3u'']
          = Some (File (''#EXTM3U'' @ [CHR 0x0A]))"
    by (simp only: r h)
  from g have "fst (generate ?c ds_tv world0) = Inr (0, 0)" by (metis fst_conv)
  with e k f show ?thesis by blast
qed

text \<open>
  C4: when \<^verbatim>\<open>CLEAN_FILTER\<close> is not set, the channels written by a completed run are the
  channels of the sorted list that \<^verbatim>\<open>is_channel_allowed\<close> accepted, each once, their number
  is the second counter, and the first counter is the size of the fetched list
  (\<^verbatim>\<open>replace_categories\<close> keeping the size of the list, as the specification says).
\<close>

theorem counts_without_clean_filter:
  assumes "generate c d w = (Inr (t, a), w')" and "\<not> CLEAN_FILTER d" and "remap_contract c d"
  shows "\<exists>l0 l. get_channel_list c d = Inr l0 \<and> collection c d = Inr l \<and>
           written (since w w') = filter (allowed c d) l \<and>
           int (length (written (since w w'))) = a \<and> t = int (length l0) \<and>
           fs w' (resolve (OUT_FILE_NAME d)) = Some (File (output_text c d l))"
proof -
  from assms(1) obtain f1 l where
    s: "collection c d = Inr l" "t = int (length l)" "a = int (length (filter (allowed c d) l))"
       "written (since w w') = filter (allowed c d) l"
       "fs w' = f1(resolve (OUT_FILE_NAME d) \<mapsto> File (output_text c d l))"
    by (rule generate_success)
  from s(1) assms(2) obtain l0 l1 where
    l: "get_channel_list c d = Inr l0" "replace_categories c l0 d = Inr l1"
       "l = sort_key cat (sort_key name l1)"
    by (auto simp: collection_def Let_def split: sum.splits)
  from l(2) assms(3) have "length l1 = length l0" by (auto simp: remap_contract_def)
  with l(3) have "length l = length l0" by simp
  with s l(1) show ?thesis by simp
qed

text \<open>The example with the Sports channel refused: counters \<open>(2, 1)\<close>, News/A alone is
  written.\<close>

theorem counts_without_clean_filter_witness:
  "\<not> CLEAN_FILTER ds_tv \<and>
   remap_contract (handler0\<lparr>is_channel_allowed := (\<lambda>ch d. Inr (cat ch \<noteq> ''Sports''))\<rparr>) ds_tv \<and>
   generate (handler0\<lparr>is_channel_allowed := (\<lambda>ch d. Inr (cat ch \<noteq> ''Sports''))\<rparr>) ds_tv world0
     = (Inr (2, 1),
        snd (generate (handler0\<lparr>is_channel_allowed := (\<lambda>ch d. Inr (cat ch \<noteq> ''Sports''))\<rparr>)
               ds_tv world0)) \<and>
   written (since world0
     (snd (generate (handler0\<lparr>is_channel_allowed := (\<lambda>ch d. Inr (cat ch \<noteq> ''Sports''))\<rparr>)
             ds_tv world0))) = [ch_a] \<and>
   (\<exists>l0 l. get_channel_list (handler0\<lparr>is_channel_allowed := (\<lambda>ch d. Inr (cat ch \<noteq> ''Sports''))\<rparr>)
              ds_tv = Inr l0 \<and>
           collection (handler0\<lparr>is_channel_allowed := (\<lambda>ch d. Inr (cat ch \<noteq> ''Sports''))\<rparr>) ds_tv
             = Inr l \<and> 2 = int (length l0))"
proof -
  let ?c = "handler0\<lparr>is_channel_allowed := (\<lambda>ch d. Inr (cat ch \<noteq> ''Sports''))\<rparr>"
  have g: "generate ?c ds_tv world0 = (Inr (2, 1), snd (generate ?c ds_tv world0))"
    by (simp add: run_simps)
  have n: "\<not> CLEAN_FILTER ds_tv" by (simp add: ds_tv_def)
  have k: "remap_contract ?c ds_tv"
    by (simp add: remap_contract_def handler0_def)
  have v: "written (since world0 (snd (generate ?c ds_tv world0))) = [ch_a]"
    by (simp add: run_simps)
  from counts_without_clean_filter[OF g n k]
  have "\<exists>l0 l. get_channel_list ?c ds_tv = Inr l0 \<and> collection ?c ds_tv = Inr l \<and>
          2 = int (length l0)"
    by blast
  with g n k v show ?thesis by blast
qed

text \<open>
  C10: the first counter of a completed run is the length of the list the write loop
  runs over; with \<^verbatim>\<open>CLEAN_FILTER\<close> set that is the list as \<^verbatim>\<open>clean_filter\<close> left it, not
  the fetched one.
\<close>

theorem total_is_loop_length:
  assumes "generate c d w = (Inr (t, a), w')"
  shows "\<exists>l. collection c d = Inr l \<and> t = int (length l) \<and>
           (CLEAN_FILTER d \<longrightarrow>
              (\<exists>l0 l1. get_channel_list c d = Inr l0 \<and> replace_categories c l0 d = Inr l1 \<and>
                 clean_filter c (sort_key cat (sort_key name l1)) d = Inr l))"
proof -
  from assms obtain f1 l where s: "collection c d = Inr l" "t = int (length l)"
    by (rule generate_success)
  have "\<exists>l0 l1. get_channel_list c d = Inr l0 \<and> replace_categories c l0 d = Inr l1 \<and>
          clean_filter c (sort_key cat (sort_key name l1)) d = Inr l" if "CLEAN_FILTER d"
    using s(1) that by (auto simp: collection_def Let_def split: sum.splits)
  with s show ?thesis by blast
qed

text \<open>Three channels are fetched, \<^verbatim>\<open>clean_filter\<close> drops one: the total is 2.\<close>

theorem total_is_loop_length_witness:
  "get_channel_list (handler0\<lparr>get_channel_list := (\<lambda>d. Inr [ch_b, ch_x, ch_a])\<rparr>)
     (ds_tv\<lparr>CLEAN_FILTER := True\<rparr>) = Inr [ch_b, ch_x, ch_a] \<and>
   generate (handler0\<lparr>get_channel_list := (\<lambda>d. Inr [ch_b, ch_x, ch_a])\<rparr>)
     (ds_tv\<lparr>CLEAN_FILTER := True\<rparr>) world0
     = (Inr (2, 2),
        snd (generate (handler0\<lparr>get_channel_list := (\<lambda>d. Inr [ch_b, ch_x, ch_a])\<rparr>)
               (ds_tv\<lparr>CLEAN_FILTER := True\<rparr>) world0)) \<and>
   (\<exists>l. collection (handler0\<lparr>get_channel_list := (\<lambda>d. Inr [ch_b, ch_x, ch_a])\<rparr>)
          (ds_tv\<lparr>CLEAN_FILTER := True\<rparr>) = Inr l \<and> 2 = int (length l))"
proof -
  let ?c = "handler0\<lparr>get_channel_list := (\<lambda>d. Inr [ch_b, ch_x, ch_a])\<rparr>"
  let ?d = "ds_tv\<lparr>CLEAN_FILTER := True\<rparr>"
  have g: "generate ?c ?d world0 = (Inr (2, 2), snd (generate ?c ?d world0))"
    by (simp add: run_simps)
  have e: "get_channel_list ?c ?d = Inr [ch_b, ch_x, ch_a]" by simp
  from total_is_loop_length[OF g]
  have "\<exists>l. collection ?c ?d = Inr l \<and> 2 = int (length l)" by blast
  with g e show ?thesis by blast
qed

section \<open>Directories\<close>

lemma chain_longer: "p \<in> set (chain pre cs) \<Longrightarrow> length pre < length p"
  by (induction cs arbitrary: pre) fastforce+

lemma chain_nonempty: "[] \<notin> set (chain pre cs)"
  using chain_longer by fastforce

lemma chain_last: "cs \<noteq> [] \<Longrightarrow> pre @ cs \<in> set (chain pre cs)"
proof (induction cs arbitrary: pre)
  case Nil
  then show ?case by simp
next
  case (Cons c cs)
  show ?case
  proof (cases "cs = []")
    case True
    then show ?thesis by simp
  next
    case False
    from Cons.IH[OF this, of "pre @ [c]"] show ?thesis by simp
  qed
qed

lemma ensure_dirs_ok:
  "ensure_dirs f pre cs = (None, f1) \<Longrightarrow>
   (\<forall>p\<in>set (chain pre cs). f1 p = Some Dir) \<and> (\<forall>p. p \<notin> set (chain pre cs) \<longrightarrow> f1 p = f p)"
proof (induction cs arbitrary: f pre)
  case Nil
  then show ?case by simp
next
  case (Cons c cs)
  let ?q = "pre @ [c]"
  have nq: "?q \<notin> set (chain ?q cs)" using chain_longer by blast
  show ?case
  proof (cases "f ?q")
    case None
    with Cons.prems have "ensure_dirs (f(?q \<mapsto> Dir)) ?q cs = (None, f1)"
      by (simp add: node_at_def)
    from Cons.IH[OF this] nq show ?thesis by auto
  next
    case (Some n)
    with Cons.prems have n: "n = Dir" and "ensure_dirs f ?q cs = (None, f1)"
      by (auto simp: node_at_def split: node.splits)
    from Cons.IH[OF this(2)] nq Some n show ?thesis by auto
  qed
qed

lemma ensure_dirs_present:
  "\<forall>p\<in>set (chain pre cs). g p = Some Dir \<Longrightarrow> ensure_dirs g pre cs = (None, g)"
  by (induction cs arbitrary: pre) (auto simp: node_at_def)


lemma write_loop_fs_cong:
  "fs w = fs v \<Longrightarrow>
   fst (write_loop c d h xs (t, a) w) = fst (write_loop c d h xs (t, a) v) \<and>
   fs (snd (write_loop c d h xs (t, a) w)) = fs (snd (write_loop c d h xs (t, a) v))"
proof (induction xs arbitrary: t a w v)
  case Nil
  then show ?case by simp
next
  case (Cons ch rest)
  show ?case
  proof (cases "is_channel_allowed c ch d")
    case (Inl e)
    with Cons.prems show ?thesis by (simp add: emit_def)
  next
    case (Inr ok)
    show ?thesis
    proof (cases ok)
      case False
      have "fs (emit (Call_is_channel_allowed ch d) w) = fs (emit (Call_is_channel_allowed ch d) v)"
        using Cons.prems by (simp add: emit_def)
      from Cons.IH[OF this] Inr False show ?thesis by simp
    next
      case True
      show ?thesis
      proof (cases "write_entry c ch d")
        case (Inl e)
        with True Inr Cons.prems show ?thesis by (simp add: emit_def)
      next
        case (Inr s)
        have "fs (file_write h s (emit (Call_write_entry ch d) (emit (Call_is_channel_allowed ch d) w)))
            = fs (file_write h s (emit (Call_write_entry ch d) (emit (Call_is_channel_allowed ch d) v)))"
          using Cons.prems by (simp add: emit_def file_write_def)
        from Cons.IH[OF this] Inr True \<open>is_channel_allowed c ch d = Inr ok\<close>
        show ?thesis by simp
      qed
    qed
  qed
qed

lemma with_body_fs_cong:
  assumes "fs w = fs v" and "with_body c d h w = (r, w')"
  shows "\<exists>v'. with_body c d h v = (r, v') \<and> fs v' = fs w'"
proof -
  obtain r2 v' where v: "with_body c d h v = (r2, v')" by (cases "with_body c d h v")
  from assms(2) show ?thesis
  proof (cases rule: with_body_cases)
    case (fail e evs)
    from v show ?thesis
    proof (cases rule: with_body_cases)
      case fail2: (fail e2 evs2)
      with fail assms(1) v show ?thesis by (simp add: file_write_def)
    next
      case (loop l evs2 vl)
      with fail show ?thesis by simp
    qed
  next
    case (loop l evs wl)
    from v show ?thesis
    proof (cases rule: with_body_cases)
      case (fail e2 evs2)
      with loop show ?thesis by simp
    next
      case loop2: (loop l2 evs2 vl)
      from loop(1) loop2(1) have "l2 = l" by simp
      have "fs wl = fs vl" using loop(5) loop2(5) assms(1) by (simp add: file_write_def)
      from write_loop_fs_cong[OF this, of c d h l 0 0] loop(6) loop2(6) \<open>l2 = l\<close> v
      show ?thesis by simp
    qed
  qed
qed

lemma with_body_file:
  assumes "fs w h = Some (File x)" and "with_body c d h w = (r, w')"
  shows "\<exists>s. fs w' = (fs w)(h \<mapsto> File (x @ OUT_FILE_FIRST_LINE d @ s))"
  using assms(2)
proof (cases rule: with_body_cases)
  case (fail e evs)
  with assms(1) show ?thesis
    by (auto simp: file_write_def content_def intro!: exI[of _ "[]"])
next
  case (loop l evs wl)
  have fl: "fs wl = (fs w)(h \<mapsto> File (x @ OUT_FILE_FIRST_LINE d))"
    using loop(5) assms(1) by (simp add: file_write_def content_def)
  then have "fs wl h = Some (File (x @ OUT_FILE_FIRST_LINE d))" by simp
  from write_loop_file[OF this loop(6)] fl show ?thesis by auto
qed

section \<open>Running the pipeline again\<close>

text \<open>
  C9: when a run of the pipeline has completed, a second run for the same data set with
  the same answers from the channel handler completes too, with the same two counters,
  and leaves the file system as the first run left it: the output file is the same, byte
  for byte. The second run starts from another state than the first (the directory and
  the file exist now); the file is emptied when it is opened and written anew.
\<close>

theorem rerun_same_output:
  assumes "generate c d w = (Inr r, w1)"
  shows "\<exists>w2. generate c d w1 = (Inr r, w2) \<and> fs w2 = fs w1"
proof -
  let ?nm = "OUT_FILE_NAME d"
  let ?h = "resolve ?nm"
  obtain t a where r: "r = (t, a)" by (cases r)
  from assms[unfolded r] obtain f1 l where
    m: "makedirs (dirname ?nm) (fs w) = (None, f1)"
    and o: "open_w c ?nm (OUT_FILE_ENCODING d) (w\<lparr>fs := f1\<rparr>)
       = (Inr ?h, w\<lparr>fs := f1(?h \<mapsto> File []), handles := ?h # handles w\<rparr>)"
    and f: "fs w1 = f1(?h \<mapsto> File (output_text c d l))"
    by (rule generate_success)
  let ?wo = "w\<lparr>fs := f1(?h \<mapsto> File []), handles := ?h # handles w\<rparr>"
  note ok = open_w_ok[OF o]
  from assms[unfolded r] o m obtain wb where
    b: "with_body c d ?h ?wo = (Inr (t, a), wb)" and w1: "w1 = file_close ?h wb"
    by (auto simp: generate_def split: prod.splits sum.splits option.splits)
  from m have dn: "dirname ?nm \<noteq> []"
    and e: "ensure_dirs (fs w) [] (resolve (dirname ?nm)) = (None, f1)"
    by (auto simp: makedirs_def split: if_splits)
  from ensure_dirs_ok[OF e] have d1: "\<forall>p\<in>set (chain [] (resolve (dirname ?nm))). f1 p = Some Dir"
    by blast
  have hn: "?h \<notin> set (chain [] (resolve (dirname ?nm)))"
  proof
    assume "?h \<in> set (chain [] (resolve (dirname ?nm)))"
    with d1 have "f1 ?h = Some Dir" by blast
    with ok(7) ok(2) show False by (simp add: node_at_def)
  qed
  with d1 f have "\<forall>p\<in>set (chain [] (resolve (dirname ?nm))). fs w1 p = Some Dir"
    by auto
  then have "ensure_dirs (fs w1) [] (resolve (dirname ?nm)) = (None, fs w1)"
    by (rule ensure_dirs_present)
  with dn have m2: "makedirs (dirname ?nm) (fs w1) = (None, fs w1)"
    by (simp add: makedirs_def)
  have bl: "butlast ?h \<noteq> ?h" using ok(2) by (metis append_butlast_last_id self_append_conv snoc_eq_iff_butlast)
  have par: "node_at (fs w1) (butlast ?h) = Some Dir"
    using ok(6) f bl by (auto simp: node_at_def split: if_splits)
  have o2: "open_w c ?nm (OUT_FILE_ENCODING d) w1
      = (Inr ?h, w1\<lparr>fs := f1(?h \<mapsto> File []), handles := ?h # handles w1\<rparr>)"
    using ok(2,8,9,10) par f by (simp add: open_w_def node_at_def Let_def)
  let ?wo2 = "w1\<lparr>fs := f1(?h \<mapsto> File []), handles := ?h # handles w1\<rparr>"
  have "fs ?wo = fs ?wo2" by simp
  from with_body_fs_cong[OF this b] obtain wb2 where
    b2: "with_body c d ?h ?wo2 = (Inr (t, a), wb2)" and fb: "fs wb2 = fs wb"
    by blast
  have "generate c d w1 = (Inr (t, a), file_close ?h wb2)"
    using m2 o2 b2 by (simp add: generate_def)
  moreover have "fs (file_close ?h wb2) = fs w1"
    using fb w1 by (simp add: file_close_def)
  ultimately show ?thesis using r by blast
qed

text \<open>The example run twice.\<close>

theorem rerun_same_output_witness:
  "generate handler0 ds_tv world0 = (Inr (2, 2), snd (generate handler0 ds_tv world0)) \<and>
   (\<exists>w2. generate handler0 ds_tv (snd (generate handler0 ds_tv world0)) = (Inr (2, 2), w2) \<and>
      fs w2 = fs (snd (generate handler0 ds_tv world0)))"
proof -
  have g: "generate handler0 ds_tv world0 = (Inr (2, 2), snd (generate handler0 ds_tv world0))"
    by (simp add: run_simps)
  from rerun_same_output[OF g] g show ?thesis by blast
qed

section \<open>The file handle and the file after a failure\<close>






section \<open>The loop over the data sets\<close>

lemma process_data_set_cases:
  assumes "process_data_set c cfg k d w = (r, w')"
  obtains (fail) e where "generate c d (emit (announce cfg k) w) = (Inl e, w')" "r = Some e"
    | (reported) t a w1 evs where "generate c d (emit (announce cfg k) w) = (Inr (t, a), w1)"
        "trace w' = trace w1 @ report d t a @ evs" "written evs = []" "fetched evs = []"
        "fs w' = fs w1" "handles w' = handles w1"
proof (cases "generate c d (emit (announce cfg k) w)")
  case (Pair g w1)
  show ?thesis
  proof (cases g)
    case (Inl e)
    with Pair assms show ?thesis
      by (intro fail[of e]) (auto simp: process_data_set_def announce_def Let_def)
  next
    case (Inr ta)
    obtain t a where ta: "ta = (t, a)" by (cases ta)
    show ?thesis
    proof (cases "k < int (length (DATA_SETS cfg))")
      case False
      with Pair Inr ta assms show ?thesis
        by (intro reported[where t=t and a=a and ?w1.0=w1 and evs="[Print [S '''']]"])
           (auto simp: process_data_set_def announce_def report_def Let_def emit_def)
    next
      case True
      show ?thesis
      proof (cases "DATA_SET_DELAY cfg < 0")
        case neg: True
        with True Pair Inr ta assms show ?thesis
          by (intro reported[where t=t and a=a and ?w1.0=w1 and
                evs="[Print [S ''Sleeping for'', Delta (DATA_SET_DELAY cfg),
                             S ''before processing next data set...'']]"])
             (auto simp: process_data_set_def announce_def report_def Let_def emit_def sleep_def)
      next
        case False
        with True Pair Inr ta assms show ?thesis
          by (intro reported[where t=t and a=a and ?w1.0=w1 and
                evs="[Print [S ''Sleeping for'', Delta (DATA_SET_DELAY cfg),
                             S ''before processing next data set...''],
                      Sleep (DATA_SET_DELAY cfg), Print [S '''']]"])
             (auto simp: process_data_set_def announce_def report_def Let_def emit_def sleep_def)
      qed
    qed
  qed
qed

lemma written_report [simp]: "written (report d t a) = []" "fetched (report d t a) = []"
  by (simp_all add: report_def)

text \<open>
  C5: every channel handed to \<^verbatim>\<open>write_entry\<close> while a data set is processed is one for
  which \<^verbatim>\<open>is_channel_allowed\<close> returned true, however the processing ends; and when the
  pipeline has completed with counters \<open>t\<close> and \<open>a\<close>, the three numbers printed after it
  are \<open>t\<close>, \<open>a\<close> and \<open>t - a\<close>, the last one as the number of channels denied.
\<close>

theorem written_were_allowed:
  assumes "process_data_set c cfg k d w = (r, w')"
  shows "(\<forall>ch\<in>set (written (since w w')). is_channel_allowed c ch d = Inr True) \<and>
         (\<forall>t a w1. generate c d (emit (announce cfg k) w) = (Inr (t, a), w1) \<longrightarrow>
            (\<exists>evs1 evs2. since w w' = evs1 @
               [Print [S ''Channels processed in total:'', I t],
                Print [S ''Channels allowed:'', I a],
                Print [S ''Channels denied:'', I (t - a)]] @ evs2))"
  using assms
proof (cases rule: process_data_set_cases)
  case (fail e)
  from generate_trace[OF fail(1)] obtain evs l where
    e: "trace w' = trace w @ announce cfg k # evs" "prefix (written evs) (filter (allowed c d) l)"
    by (auto simp: emit_def)
  from e(2) have "set (written evs) \<subseteq> set (filter (allowed c d) l)" by (rule set_mono_prefix)
  then have "\<forall>ch\<in>set (written evs). is_channel_allowed c ch d = Inr True"
    by (auto simp: allowed_def)
  moreover have "since w w' = announce cfg k # evs" using e(1) by (rule since_append)
  ultimately show ?thesis using fail(1) by (simp add: announce_def)
next
  case (reported t a w1 evs)
  from generate_trace[OF reported(1)] obtain evs0 l where
    e: "trace w1 = trace w @ announce cfg k # evs0" "prefix (written evs0) (filter (allowed c d) l)"
    by (auto simp: emit_def)
  from e(2) have "set (written evs0) \<subseteq> set (filter (allowed c d) l)" by (rule set_mono_prefix)
  then have al: "\<forall>ch\<in>set (written evs0). is_channel_allowed c ch d = Inr True"
    by (auto simp: allowed_def)
  have s: "since w w' = announce cfg k # evs0 @ report d t a @ evs"
    using e(1) reported(2) by (simp add: since_append)
  have w: "written (since w w') = written evs0"
    using reported(3) by (simp add: s written_append announce_def)
  have "since w w' = (announce cfg k # evs0 @
          [Print [S ''Playlist'', S (OUT_FILE_NAME d), S ''successfully generated.'']]) @
          [Print [S ''Channels processed in total:'', I t],
           Print [S ''Channels allowed:'', I a],
           Print [S ''Channels denied:'', I (t - a)]] @ evs"
    by (simp add: s report_def)
  then have "\<exists>evs1 evs2. since w w' = evs1 @
               [Print [S ''Channels processed in total:'', I t],
                Print [S ''Channels allowed:'', I a],
                Print [S ''Channels denied:'', I (t - a)]] @ evs2"
    by blast
  with al w reported(1) show ?thesis by simp
qed

text \<open>The example with the Sports channel refused: News/A is written, and 2, 1 and 1 are
  printed.\<close>

theorem written_were_allowed_witness:
  "fst (process_data_set handler_no_sports cfg1 1 ds_tv world0) = None \<and>
   written (since world0 (snd (process_data_set handler_no_sports cfg1 1 ds_tv world0))) = [ch_a] \<and>
   is_channel_allowed handler_no_sports ch_a ds_tv = Inr True \<and>
   fst (generate handler_no_sports ds_tv (emit (announce cfg1 1) world0)) = Inr (2, 1) \<and>
   (\<exists>evs1 evs2. since world0 (snd (process_data_set handler_no_sports cfg1 1 ds_tv world0)) =
      evs1 @ [Print [S ''Channels processed in total:'', I 2],
              Print [S ''Channels allowed:'', I 1],
              Print [S ''Channels denied:'', I 1]] @ evs2)"
proof -
  let ?c = handler_no_sports
  let ?p = "process_data_set ?c cfg1 1 ds_tv world0"
  have p: "?p = (None, snd ?p)" by (simp add: cycle_simps)
  have g: "generate ?c ds_tv (emit (announce cfg1 1) world0)
            = (Inr (2, 1), snd (generate ?c ds_tv (emit (announce cfg1 1) world0)))"
    by (simp add: cycle_simps)
  have v: "written (since world0 (snd ?p)) = [ch_a]" by (simp add: cycle_simps)
  note th = written_were_allowed[OF p]
  from th v have a: "is_channel_allowed ?c ch_a ds_tv = Inr True" by simp
  from th g have "\<exists>evs1 evs2. since world0 (snd ?p) =
      evs1 @ [Print [S ''Channels processed in total:'', I 2],
              Print [S ''Channels allowed:'', I 1],
              Print [S ''Channels denied:'', I (2 - 1)]] @ evs2"
    by blast
  then have r: "\<exists>evs1 evs2. since world0 (snd ?p) =
      evs1 @ [Print [S ''Channels processed in total:'', I 2],
              Print [S ''Channels allowed:'', I 1],
              Print [S ''Channels denied:'', I 1]] @ evs2"
    by simp
  from p have "fst ?p = None" by (metis fst_conv)
  moreover from g have "fst (generate ?c ds_tv (emit (announce cfg1 1) world0)) = Inr (2, 1)"
    by (metis fst_conv)
  ultimately show ?thesis using v a r by blast
qed

lemma for_data_sets_append:
  "for_data_sets c cfg k ds1 w = (None, w1) \<Longrightarrow>
   for_data_sets c cfg k (ds1 @ ds2) w = for_data_sets c cfg (k + int (length ds1)) ds2 w1"
proof (induction ds1 arbitrary: k w)
  case Nil
  then show ?case by simp
next
  case (Cons d ds1)
  from Cons.prems obtain wm where
    p: "process_data_set c cfg (k + 1) d w = (None, wm)"
    and f: "for_data_sets c cfg (k + 1) ds1 wm = (None, w1)"
    by (auto split: prod.splits option.splits)
  have "k + 1 + int (length ds1) = k + int (length (d # ds1))" by simp
  with Cons.IH[OF f] p show ?case by simp
qed

lemma for_data_sets_fetched:
  "for_data_sets c cfg k ds w = (None, w1) \<Longrightarrow>
   \<exists>evs. trace w1 = trace w @ evs \<and> fetched evs = ds"
proof (induction ds arbitrary: k w)
  case Nil
  then show ?case by simp
next
  case (Cons d ds)
  from Cons.prems obtain wm where
    p: "process_data_set c cfg (k + 1) d w = (None, wm)"
    and f: "for_data_sets c cfg (k + 1) ds wm = (None, w1)"
    by (auto split: prod.splits option.splits)
  from Cons.IH[OF f] obtain evs2 where e2: "trace w1 = trace wm @ evs2" "fetched evs2 = ds"
    by blast
  from p obtain evs1 where e1: "trace wm = trace w @ evs1" "fetched evs1 = [d]"
  proof (cases rule: process_data_set_cases)
    case (fail e)
    then show ?thesis by simp
  next
    case (reported t a wg evs)
    from reported(1) obtain f1 l where
      "fetched (since (emit (announce cfg (k + 1)) w) wg) = [d]"
      "written (since (emit (announce cfg (k + 1)) w) wg) = filter (allowed c d) l"
      by (rule generate_success)
    moreover from generate_trace[OF reported(1)] obtain evs0 where
      "trace wg = trace w @ announce cfg (k + 1) # evs0"
      "since (emit (announce cfg (k + 1)) w) wg = evs0"
      by (auto simp: emit_def since_def)
    ultimately show ?thesis
      using reported(2,4)
      by (intro that[of "announce cfg (k + 1) # evs0 @ report d t a @ evs"])
         (simp_all add: fetched_append announce_def)
  qed
  from e1 e2 show ?case by (auto simp: fetched_append)
qed

lemma main_append:
  "main m c cfg w0 = (None, w) \<Longrightarrow> main (m + n) c cfg w0 = main n c cfg w"
  by (induction m arbitrary: w0) (auto split: prod.splits option.splits)

text \<open>
  C6: when the pipeline of a data set raises (whatever step of it), nothing catches the
  exception below the entry point: the loop over the data sets, the round and \<^verbatim>\<open>main\<close>
  end with it, in the state in which the pipeline raised, so that no later data set of
  the round is looked at (\<^verbatim>\<open>get_channel_list\<close> has been called for the earlier data sets
  and at most for the failing one), and the entry point hands it to its handler.
\<close>

theorem failure_ends_cycle:
  assumes "DATA_SETS cfg = ds1 @ b # ds2"
    and "wait_for_internet c = None"
    and "main m c cfg w0 = (None, w)"
    and "for_data_sets c cfg 0 ds1
           (emit Call_wait_for_internet (emit (Print [S ''Started at'', Now]) w)) = (None, w1)"
    and "generate c b (emit (announce cfg (int (length ds1) + 1)) w1) = (Inl e, w2)"
  shows "cycle c cfg w = (Some e, w2) \<and>
         main (m + Suc n) c cfg w0 = (Some e, w2) \<and>
         entry_point (m + Suc n) c cfg w0 = (Some (fst (handler c cfg e w2)), snd (handler c cfg e w2)) \<and>
         (\<exists>evs. fetched (since w w2) = ds1 @ evs \<and> prefix evs [b])"
proof -
  let ?w0 = "emit Call_wait_for_internet (emit (Print [S ''Started at'', Now]) w)"
  have p: "process_data_set c cfg (int (length ds1) + 1) b w1 = (Some e, w2)"
    using assms(5) by (simp add: process_data_set_def announce_def Let_def)
  have "for_data_sets c cfg 0 (ds1 @ b # ds2) ?w0
          = for_data_sets c cfg (0 + int (length ds1)) (b # ds2) w1"
    using assms(4) by (rule for_data_sets_append)
  with p have f: "for_data_sets c cfg 0 (DATA_SETS cfg) ?w0 = (Some e, w2)"
    using assms(1) by simp
  have cy: "cycle c cfg w = (Some e, w2)"
    using f assms(2) by (simp add: cycle_def Let_def)
  then have "main (Suc n) c cfg w = (Some e, w2)" by simp
  with main_append[OF assms(3), of "Suc n"]
  have mn: "main (m + Suc n) c cfg w0 = (Some e, w2)" by simp
  then have ep: "entry_point (m + Suc n) c cfg w0
      = (Some (fst (handler c cfg e w2)), snd (handler c cfg e w2))"
    by (simp add: entry_point_def split: prod.splits)
  from for_data_sets_fetched[OF assms(4)] obtain evs1 where
    e1: "trace w1 = trace ?w0 @ evs1" "fetched evs1 = ds1"
    by blast
  from generate_trace[OF assms(5)] obtain evs2 where
    e2: "trace w2 = trace (emit (announce cfg (int (length ds1) + 1)) w1) @ evs2"
      "prefix (fetched evs2) [b]"
    by blast
  have "trace w2 = trace w @ [Print [S ''Started at'', Now], Call_wait_for_internet] @ evs1 @
          announce cfg (int (length ds1) + 1) # evs2"
    using e1(1) e2(1) by (simp add: emit_def)
  then have "since w w2 = [Print [S ''Started at'', Now], Call_wait_for_internet] @ evs1 @
          announce cfg (int (length ds1) + 1) # evs2"
    by (rule since_append)
  then have "fetched (since w w2) = ds1 @ fetched evs2"
    using e1(2) by (simp add: fetched_append announce_def)
  with e2(2) have "\<exists>evs. fetched (since w w2) = ds1 @ evs \<and> prefix evs [b]" by blast
  with cy mn ep show ?thesis by blast
qed

text \<open>Three data sets, fetching fails for the second: the round ends with the exception,
  channels were fetched for the first two, and the file of the third was never made.\<close>

theorem failure_ends_cycle_witness:
  "DATA_SETS cfg3 = [ds_a] @ ds_b # [ds_c] \<and>
   wait_for_internet handler_b_down = None \<and>
   fst (generate handler_b_down ds_b
          (emit (announce cfg3 (int (length [ds_a]) + 1))
             (snd (for_data_sets handler_b_down cfg3 0 [ds_a]
                (emit Call_wait_for_internet (emit (Print [S ''Started at'', Now]) world0))))))
     = Inl (Raised ''timeout'') \<and>
   fst (cycle handler_b_down cfg3 world0) = Some (Raised ''timeout'') \<and>
   fst (main (Suc 0) handler_b_down cfg3 world0) = Some (Raised ''timeout'') \<and>
   fetched (since world0 (snd (cycle handler_b_down cfg3 world0))) = [ds_a, ds_b] \<and>
   fs (snd (cycle handler_b_down cfg3 world0)) [''out'', ''c.m3u''] = None"
proof -
  let ?c = handler_b_down
  let ?w0 = "emit Call_wait_for_internet (emit (Print [S ''Started at'', Now]) world0)"
  let ?w1 = "snd (for_data_sets ?c cfg3 0 [ds_a] ?w0)"
  let ?g = "generate ?c ds_b (emit (announce cfg3 (int (length [ds_a]) + 1)) ?w1)"
  have d: "DATA_SETS cfg3 = [ds_a] @ ds_b # [ds_c]" by (simp add: cfg3_def)
  have i: "wait_for_internet ?c = None" by (simp add: handler_b_down_def handler0_def)
  have m: "main 0 ?c cfg3 world0 = (None, world0)" by simp
  have f: "for_data_sets ?c cfg3 0 [ds_a] ?w0 = (None, ?w1)" by (simp add: cycle_simps)
  have g: "?g = (Inl (Raised ''timeout''), snd ?g)" by (simp add: cycle_simps)
  from failure_ends_cycle[OF d i m f g, of 0]
  have cy: "cycle ?c cfg3 world0 = (Some (Raised ''timeout''), snd ?g)"
    and mn: "main (Suc 0) ?c cfg3 world0 = (Some (Raised ''timeout''), snd ?g)"
    by simp_all
  have ft: "fetched (since world0 (snd (cycle ?c cfg3 world0))) = [ds_a, ds_b]"
    by (simp add: cycle_simps)
  have nc: "fs (snd (cycle ?c cfg3 world0)) [''out'', ''c.m3u''] = None"
    by (simp add: cycle_simps)
  from g have "fst ?g = Inl (Raised ''timeout'')" by (metis fst_conv)
  moreover from cy have "fst (cycle ?c cfg3 world0) = Some (Raised ''timeout'')" by simp
  moreover from mn have "fst (main (Suc 0) ?c cfg3 world0) = Some (Raised ''timeout'')" by simp
  ultimately show ?thesis using d i ft nc by blast
qed

section \<open>Making the directory\<close>









section \<open>The crash handler\<close>

lemma pause_and_exit_events:
  assumes "pause_and_exit c cfg w = (s, w')"
  shows "s = 1 \<and>
    (\<exists>tl. trace w' = trace w @ tl \<and>
       (PAUSE_ON_CRASH cfg \<longrightarrow>
          (\<forall>x. input_line c = Inr x \<longrightarrow>
             tl = [Call_input ''Press <Enter> to exit...'', Call_exit 1]) \<and>
          (\<forall>x. input_line c = Inl x \<longrightarrow>
             tl = [Call_input ''Press <Enter> to exit...'', Print_exc x])) \<and>
       (\<not> PAUSE_ON_CRASH cfg \<longrightarrow> tl = [Call_exit 1]))"
  using assms
  by (auto simp: pause_and_exit_def uncaught_def emit_def Let_def split: if_splits sum.splits)

text \<open>
  C7, as the code has it: an exception that leaves \<^verbatim>\<open>main\<close> is handed to the handler of
  the entry point, and the process ends with status 1 whatever happens in the handler.
  The handler first prints the exception. With \<^verbatim>\<open>MAIL_ON_CRASH\<close> set it announces the
  notification and looks up the host name and its address; when a lookup raises, that
  exception is caught by nothing and the process ends there, with no mail, no pause and no
  call of \<^verbatim>\<open>exit\<close>. Otherwise \<^verbatim>\<open>send_email\<close> is called once, with the subject that names the
  host and its address and with the formatted exception as the body; when the call
  raises, that exception is caught by nothing and the process ends there, with neither the
  pause nor the call of \<^verbatim>\<open>exit\<close>. Without \<^verbatim>\<open>MAIL_ON_CRASH\<close> none of this happens and no
  mail is sent. When the notification step is not asked for or has gone through, the
  handler ends as follows: with \<^verbatim>\<open>PAUSE_ON_CRASH\<close> set it asks for a line of input and,
  the line read, calls \<^verbatim>\<open>exit(1)\<close> (when reading raises, that exception ends the
  process); without it, it asks for no input and calls \<^verbatim>\<open>exit(1)\<close>. Nothing else
  happens in the handler.
\<close>

theorem crash_handled:
  assumes "main n c cfg w0 = (Some e, w)"
  shows "\<exists>w' evs tl. entry_point n c cfg w0 = (Some 1, w') \<and> since w w' = Print_exc e # evs \<and>
     (\<not> MAIL_ON_CRASH cfg \<longrightarrow> evs = tl) \<and>
     (MAIL_ON_CRASH cfg \<longrightarrow>
        (\<forall>x. gethostname c = Inl x \<longrightarrow>
           evs = [Print_stderr [S ''Sending notification.''], Print_exc x]) \<and>
        (\<forall>h x. gethostname c = Inr h \<longrightarrow> gethostbyname c h = Inl x \<longrightarrow>
           evs = [Print_stderr [S ''Sending notification.''], Print_exc x]) \<and>
        (\<forall>h ip. gethostname c = Inr h \<longrightarrow> gethostbyname c h = Inr ip \<longrightarrow>
           (\<forall>x. send_email c (crash_subject h ip) (format_exc c e) = Some x \<longrightarrow>
              evs = [Print_stderr [S ''Sending notification.''],
                     Call_send_email (crash_subject h ip) (format_exc c e), Print_exc x]) \<and>
           (send_email c (crash_subject h ip) (format_exc c e) = None \<longrightarrow>
              evs = Print_stderr [S ''Sending notification.''] #
                    Call_send_email (crash_subject h ip) (format_exc c e) # tl))) \<and>
     (PAUSE_ON_CRASH cfg \<longrightarrow>
        (\<forall>x. input_line c = Inr x \<longrightarrow>
           tl = [Call_input ''Press <Enter> to exit...'', Call_exit 1]) \<and>
        (\<forall>x. input_line c = Inl x \<longrightarrow>
           tl = [Call_input ''Press <Enter> to exit...'', Print_exc x])) \<and>
     (\<not> PAUSE_ON_CRASH cfg \<longrightarrow> tl = [Call_exit 1])"
proof -
  obtain s w' where h: "handler c cfg e w = (s, w')" by (cases "handler c cfg e w")
  with assms have ep: "entry_point n c cfg w0 = (Some s, w')" by (simp add: entry_point_def)
  let ?w1 = "emit (Print_exc e) w"
  let ?w2 = "emit (Print_stderr [S ''Sending notification.'']) ?w1"
  obtain tl0 where tl0:
    "(PAUSE_ON_CRASH cfg \<longrightarrow>
        (\<forall>x. input_line c = Inr x \<longrightarrow>
           tl0 = [Call_input ''Press <Enter> to exit...'', Call_exit 1]) \<and>
        (\<forall>x. input_line c = Inl x \<longrightarrow>
           tl0 = [Call_input ''Press <Enter> to exit...'', Print_exc x])) \<and>
     (\<not> PAUSE_ON_CRASH cfg \<longrightarrow> tl0 = [Call_exit 1])"
    using pause_and_exit_events[of c cfg w "fst (pause_and_exit c cfg w)" "snd (pause_and_exit c cfg w)"]
    by auto
  show ?thesis
  proof (cases "MAIL_ON_CRASH cfg")
    case False
    with h have p: "pause_and_exit c cfg ?w1 = (s, w')" by (simp add: handler_def Let_def)
    from pause_and_exit_events[OF p] obtain tl where
      t: "s = 1" "trace w' = trace ?w1 @ tl"
        "(PAUSE_ON_CRASH cfg \<longrightarrow>
          (\<forall>x. input_line c = Inr x \<longrightarrow>
             tl = [Call_input ''Press <Enter> to exit...'', Call_exit 1]) \<and>
          (\<forall>x. input_line c = Inl x \<longrightarrow>
             tl = [Call_input ''Press <Enter> to exit...'', Print_exc x])) \<and>
         (\<not> PAUSE_ON_CRASH cfg \<longrightarrow> tl = [Call_exit 1])"
      by blast
    from t(2) have "trace w' = trace w @ Print_exc e # tl" by (simp add: emit_def)
    then have "since w w' = Print_exc e # tl" by (rule since_append)
    with ep t(1,3) False show ?thesis by (intro exI[of _ w'] exI[of _ tl]) simp
  next
    case True
    show ?thesis
    proof (cases "gethostname c")
      case (Inl x)
      with h True have "s = 1"
        and "trace w' = trace w @ [Print_exc e, Print_stderr [S ''Sending notification.''], Print_exc x]"
        by (auto simp: handler_def uncaught_def emit_def Let_def)
      moreover from this(2)
      have "since w w' = [Print_exc e, Print_stderr [S ''Sending notification.''], Print_exc x]"
        by (rule since_append)
      ultimately show ?thesis using ep True Inl tl0
        by (intro exI[of _ w'] exI[of _ "[Print_stderr [S ''Sending notification.''], Print_exc x]"]
              exI[of _ tl0]) simp
    next
      case (Inr hn)
      show ?thesis
      proof (cases "gethostbyname c hn")
        case (Inl x)
        with h True Inr have "s = 1"
          and "trace w' = trace w @ [Print_exc e, Print_stderr [S ''Sending notification.''], Print_exc x]"
          by (auto simp: handler_def uncaught_def emit_def Let_def)
        moreover from this(2)
        have "since w w' = [Print_exc e, Print_stderr [S ''Sending notification.''], Print_exc x]"
          by (rule since_append)
        ultimately show ?thesis using ep True Inr Inl tl0
          by (intro exI[of _ w'] exI[of _ "[Print_stderr [S ''Sending notification.''], Print_exc x]"]
                exI[of _ tl0]) simp
      next
        case ip: (Inr ip)
        let ?m = "Call_send_email (crash_subject hn ip) (format_exc c e)"
        let ?w3 = "emit ?m ?w2"
        show ?thesis
        proof (cases "send_email c (crash_subject hn ip) (format_exc c e)")
          case (Some x)
          with h True Inr ip have "s = 1"
            and "trace w' = trace w @ [Print_exc e, Print_stderr [S ''Sending notification.''], ?m, Print_exc x]"
            by (auto simp: handler_def uncaught_def emit_def Let_def crash_subject_def)
          moreover from this(2)
          have "since w w' = [Print_exc e, Print_stderr [S ''Sending notification.''], ?m, Print_exc x]"
            by (rule since_append)
          ultimately show ?thesis using ep True Inr ip Some tl0
            by (intro exI[of _ w']
                  exI[of _ "[Print_stderr [S ''Sending notification.''], ?m, Print_exc x]"]
                  exI[of _ tl0]) simp
        next
          case None
          with h True Inr ip have p: "pause_and_exit c cfg ?w3 = (s, w')"
            by (simp add: handler_def Let_def crash_subject_def)
          from pause_and_exit_events[OF p] obtain tl where
            t: "s = 1" "trace w' = trace ?w3 @ tl"
              "(PAUSE_ON_CRASH cfg \<longrightarrow>
                (\<forall>x. input_line c = Inr x \<longrightarrow>
                   tl = [Call_input ''Press <Enter> to exit...'', Call_exit 1]) \<and>
                (\<forall>x. input_line c = Inl x \<longrightarrow>
                   tl = [Call_input ''Press <Enter> to exit...'', Print_exc x])) \<and>
               (\<not> PAUSE_ON_CRASH cfg \<longrightarrow> tl = [Call_exit 1])"
            by blast
          from t(2) have "trace w' = trace w @ Print_exc e #
                Print_stderr [S ''Sending notification.''] # ?m # tl"
            by (simp add: emit_def)
          then have "since w w' = Print_exc e # Print_stderr [S ''Sending notification.''] # ?m # tl"
            by (rule since_append)
          with ep t(1,3) True Inr ip None show ?thesis
            by (intro exI[of _ w'] exI[of _ "Print_stderr [S ''Sending notification.''] # ?m # tl"]
                  exI[of _ tl]) simp
        qed
      qed
    qed
  qed
qed

text \<open>Fetching fails for the second data set. With the mail going out and the operator
  pressing Enter, the events of the handler are the five below; with no address found
  for the host name, the handler ends after the announcement.\<close>

theorem crash_handled_witness:
  "fst (main (Suc 0) handler_b_down cfg3 world0) = Some (Raised ''timeout'') \<and>
   MAIL_ON_CRASH cfg3 \<and> PAUSE_ON_CRASH cfg3 \<and>
   gethostname handler_b_down = Inr ''box'' \<and>
   gethostbyname handler_b_down ''box'' = Inr ''10.0.0.2'' \<and>
   crash_subject ''box'' ''10.0.0.2'' = ''M3UGenerator has crashed on box@10.0.0.2'' \<and>
   format_exc handler_b_down (Raised ''timeout'') = ''Traceback'' \<and>
   send_email handler_b_down ''M3UGenerator has crashed on box@10.0.0.2'' ''Traceback'' = None \<and>
   input_line handler_b_down = Inr '''' \<and>
   fst (entry_point (Suc 0) handler_b_down cfg3 world0) = Some 1 \<and>
   since (snd (main (Suc 0) handler_b_down cfg3 world0))
         (snd (entry_point (Suc 0) handler_b_down cfg3 world0))
     = [Print_exc (Raised ''timeout''),
        Print_stderr [S ''Sending notification.''],
        Call_send_email ''M3UGenerator has crashed on box@10.0.0.2'' ''Traceback'',
        Call_input ''Press <Enter> to exit...'',
        Call_exit 1] \<and>
   gethostbyname handler_no_dns ''box'' = Inl (Raised ''gaierror'') \<and>
   fst (entry_point (Suc 0) handler_no_dns cfg3 world0) = Some 1 \<and>
   since (snd (main (Suc 0) handler_no_dns cfg3 world0))
         (snd (entry_point (Suc 0) handler_no_dns cfg3 world0))
     = [Print_exc (Raised ''timeout''),
        Print_stderr [S ''Sending notification.''],
        Print_exc (Raised ''gaierror'')]"
proof -
  let ?c = handler_b_down
  let ?w = "snd (main (Suc 0) ?c cfg3 world0)"
  let ?k = handler_no_dns
  let ?v = "snd (main (Suc 0) ?k cfg3 world0)"
  have m: "main (Suc 0) ?c cfg3 world0 = (Some (Raised ''timeout''), ?w)"
    by (simp add: cycle_simps)
  have f: "MAIL_ON_CRASH cfg3" "PAUSE_ON_CRASH cfg3" by (simp_all add: cfg3_def)
  have g: "gethostname ?c = Inr ''box''" "gethostbyname ?c ''box'' = Inr ''10.0.0.2''"
    "crash_subject ''box'' ''10.0.0.2'' = ''M3UGenerator has crashed on box@10.0.0.2''"
    "format_exc ?c (Raised ''timeout'') = ''Traceback''"
    "send_email ?c ''M3UGenerator has crashed on box@10.0.0.2'' ''Traceback'' = None"
    "input_line ?c = Inr ''''"
    by (simp_all add: handler_b_down_def handler0_def crash_subject_def)
  from crash_handled[OF m] obtain w' evs tl where
    r: "entry_point (Suc 0) ?c cfg3 world0 = (Some 1, w')" "since ?w w' = Print_exc (Raised ''timeout'') # evs"
      "evs = Print_stderr [S ''Sending notification.''] #
             Call_send_email (crash_subject ''box'' ''10.0.0.2'') (format_exc ?c (Raised ''timeout'')) # tl"
      "tl = [Call_input ''Press <Enter> to exit...'', Call_exit 1]"
    using f g by auto
  from r have s: "fst (entry_point (Suc 0) ?c cfg3 world0) = Some 1"
    and t: "since ?w (snd (entry_point (Suc 0) ?c cfg3 world0))
     = [Print_exc (Raised ''timeout''),
        Print_stderr [S ''Sending notification.''],
        Call_send_email ''M3UGenerator has crashed on box@10.0.0.2'' ''Traceback'',
        Call_input ''Press <Enter> to exit...'',
        Call_exit 1]"
    using g(3,4) by simp_all
  have m2: "main (Suc 0) ?k cfg3 world0 = (Some (Raised ''timeout''), ?v)"
    by (simp add: cycle_simps handler_no_dns_def)
  have g2: "gethostname ?k = Inr ''box''" "gethostbyname ?k ''box'' = Inl (Raised ''gaierror'')"
    by (simp_all add: handler_no_dns_def handler_b_down_def handler0_def)
  from crash_handled[OF m2] obtain v' evs2 where
    r2: "entry_point (Suc 0) ?k cfg3 world0 = (Some 1, v')"
      "since ?v v' = Print_exc (Raised ''timeout'') # evs2"
      "evs2 = [Print_stderr [S ''Sending notification.''], Print_exc (Raised ''gaierror'')]"
    using f g2 by auto
  from r2 have s2: "fst (entry_point (Suc 0) ?k cfg3 world0) = Some 1"
    and t2: "since ?v (snd (entry_point (Suc 0) ?k cfg3 world0))
     = [Print_exc (Raised ''timeout''),
        Print_stderr [S ''Sending notification.''],
        Print_exc (Raised ''gaierror'')]"
    by simp_all
  from m have "fst (main (Suc 0) ?c cfg3 world0) = Some (Raised ''timeout'')" by (metis fst_conv)
  with s f g t g2(2) s2 t2 show ?thesis by blast
qed

text \<open>
  The claim as the specification states it, that with \<^verbatim>\<open>PAUSE_ON_CRASH\<close> set the process
  waits for the operator before it ends, fails: both flags are set, \<^verbatim>\<open>send_email\<close> raises,
  and the process ends with status 1 without having asked for input.
\<close>

theorem pause_skipped_counterexample:
  "MAIL_ON_CRASH cfg3 \<and> PAUSE_ON_CRASH cfg3 \<and>
   fst (main (Suc 0) handler_mail_down cfg3 world0) = Some (Raised ''timeout'') \<and>
   fst (entry_point (Suc 0) handler_mail_down cfg3 world0) = Some 1 \<and>
   since (snd (main (Suc 0) handler_mail_down cfg3 world0))
         (snd (entry_point (Suc 0) handler_mail_down cfg3 world0))
     = [Print_exc (Raised ''timeout''),
        Print_stderr [S ''Sending notification.''],
        Call_send_email ''M3UGenerator has crashed on box@10.0.0.2'' ''Traceback'',
        Print_exc (Raised ''smtp'')] \<and>
   Call_input ''Press <Enter> to exit...''
     \<notin> set (trace (snd (entry_point (Suc 0) handler_mail_down cfg3 world0)))"
  by (simp add: crash_simps)

end
